theory Spec2Isabelle
  imports Main "HOL-Library.Monad_Syntax" "HOL-Library.Sublist" "HOL-Library.Multiset"
begin

section \<open>The automaton nodes and the heap they live in\<close>

text \<open>
  An \<open>AutomatonNode\<close> owns its trie children by value, inside its
  \<open>std::map<char, AutomatonNode>\<close>; every \<open>AutomatonNode*\<close> of the program points
  to the root or into such a map. A node address is therefore modelled as the access path
  from the root (the characters of the \<open>trie_transitions\<close> keys on the way down), and a
  nullable pointer as an \<open>addr option\<close>. The heap maps addresses to nodes; reading through
  a null pointer or an address that holds no node is undefined behaviour in the program and
  \<open>None\<close> in the model, as is a loop or recursion that does not end.

  Sizes, indices and identifiers (\<open>size_t\<close>, 64 bits) are natural numbers. The
  subtractions whose wrap-around could be seen are written out with \<open>size_t_sub\<close>. The loop
  variable of \<open>GenerateMatches\<close> is declared \<open>int\<close> (32 bits): every stored identifier is
  converted to \<open>int\<close> when the loop reads it, and the callback receives that \<open>int\<close>; the
  two conversions are written out as \<open>size_t_to_int\<close> and \<open>int_to_size_t\<close>.
\<close>

type_synonym addr = string

record AutomatonNode =
  terminated_string_ids :: "nat list"
  trie_transitions :: "(char \<times> addr) list"
  automaton_transitions_cache :: "char \<rightharpoonup> addr option"
  suffix_link :: "addr option"
  terminal_link :: "addr option"

type_synonym heap = "addr \<rightharpoonup> AutomatonNode"

text \<open>The constructor \<open>AutomatonNode()\<close>: no ids, no children, empty cache, null links.\<close>

definition new_node :: AutomatonNode where
  "new_node = \<lparr>terminated_string_ids = [], trie_transitions = [],
     automaton_transitions_cache = Map.empty, suffix_link = None, terminal_link = None\<rparr>"

text \<open>
  \<open>std::map<char, AutomatonNode>\<close> as an association list kept in key order, the order
  in which \<open>OutgoingEdges\<close> iterates; \<open>map_insert\<close> is only used for an absent key. The
  keys are compared by character code (whether \<open>char\<close> is signed is left to the
  platform; the order of siblings has no influence on what is proved below).
\<close>

fun map_insert :: "char \<Rightarrow> addr \<Rightarrow> (char \<times> addr) list \<Rightarrow> (char \<times> addr) list" where
  "map_insert c a [] = [(c, a)]"
| "map_insert c a ((k, v) # m) =
     (if (of_char c :: nat) < of_char k then (c, a) # (k, v) # m
      else (k, v) # map_insert c a m)"

definition GetTrieTransition :: "heap \<Rightarrow> addr \<Rightarrow> char \<Rightarrow> addr option option" where
  "GetTrieTransition h node character =
     (case h node of None \<Rightarrow> None
      | Some n \<Rightarrow> Some (map_of (trie_transitions n) character))"

definition set_cache :: "heap \<Rightarrow> addr \<Rightarrow> char \<Rightarrow> addr option \<Rightarrow> heap option" where
  "set_cache h node character target =
     (case h node of None \<Rightarrow> None
      | Some n \<Rightarrow> Some (h(node \<mapsto> n\<lparr>automaton_transitions_cache :=
                  (automaton_transitions_cache n)(character \<mapsto> target)\<rparr>)))"

text \<open>
  \<open>GetAutomatonTransition\<close>: \<open>emplace(character, nullptr)\<close> either finds an entry,
  whose value is returned, or inserts a null entry that the rest of the body overwrites
  (\<open>cached_target = ...\<close>) after looking at the trie child, the root test and the
  recursive call on the suffix link. The result is the new heap and the returned pointer.
\<close>

partial_function (option) GetAutomatonTransition ::
  "heap \<Rightarrow> addr option \<Rightarrow> addr option \<Rightarrow> char \<Rightarrow> (heap \<times> addr option) option" where
  "GetAutomatonTransition h node root character =
     (case node of None \<Rightarrow> None
      | Some a \<Rightarrow>
        (case h a of None \<Rightarrow> None
         | Some n \<Rightarrow>
           (case automaton_transitions_cache n character of
              Some cached_target \<Rightarrow> Some (h, cached_target)
            | None \<Rightarrow>
               do {
                 h1 \<leftarrow> set_cache h a character None;
                 (case map_of (trie_transitions n) character of
                    Some target_node \<Rightarrow>
                      do { h2 \<leftarrow> set_cache h1 a character (Some target_node);
                           Some (h2, Some target_node) }
                  | None \<Rightarrow>
                     if node = root then
                       do { h2 \<leftarrow> set_cache h1 a character node; Some (h2, node) }
                     else
                       do {
                         (h2, automaton_transition) \<leftarrow>
                            GetAutomatonTransition h1 (suffix_link n) root character;
                         h3 \<leftarrow> set_cache h2 a character automaton_transition;
                         Some (h3, automaton_transition)
                       })
               })))"

declare GetAutomatonTransition.simps [code]

section \<open>Breadth-first search with a visitor\<close>

record Edge =
  edge_source :: addr
  edge_target :: addr
  edge_character :: char

record BfsVisitor =
  DiscoverVertex :: "addr \<Rightarrow> heap \<Rightarrow> heap option"
  ExamineEdge :: "Edge \<Rightarrow> heap \<Rightarrow> heap option"
  ExamineVertex :: "addr \<Rightarrow> heap \<Rightarrow> heap option"

definition OutgoingEdges :: "heap \<Rightarrow> addr \<Rightarrow> Edge list option" where
  "OutgoingEdges h vertex =
     (case h vertex of None \<Rightarrow> None
      | Some n \<Rightarrow> Some (map (\<lambda>(c, t). \<lparr>edge_source = vertex, edge_target = t, edge_character = c\<rparr>)
                         (trie_transitions n)))"

definition GetTarget :: "Edge \<Rightarrow> addr" where
  "GetTarget edge = edge_target edge"

text \<open>The \<open>for\<close> loop over the outgoing edges of the examined vertex.\<close>

fun bfs_edges ::
  "BfsVisitor \<Rightarrow> Edge list \<Rightarrow> addr set \<Rightarrow> addr list \<Rightarrow> heap \<Rightarrow> (addr list \<times> heap) option" where
  "bfs_edges visitor [] discovered_vertices vertices_to_process h =
     Some (vertices_to_process, h)"
| "bfs_edges visitor (examined_edge # es) discovered_vertices vertices_to_process h =
     do {
       h1 \<leftarrow> ExamineEdge visitor examined_edge h;
       let child_vertex = GetTarget examined_edge;
       if child_vertex \<notin> discovered_vertices then
         do {
           h2 \<leftarrow> DiscoverVertex visitor child_vertex h1;
           bfs_edges visitor es discovered_vertices (vertices_to_process @ [child_vertex]) h2
         }
       else bfs_edges visitor es discovered_vertices vertices_to_process h1
     }"

text \<open>The \<open>while (!vertices_to_process.empty())\<close> loop; \<open>None\<close> also stands for a loop
  that never ends.\<close>

partial_function (option) bfs_loop ::
  "BfsVisitor \<Rightarrow> addr list \<Rightarrow> addr set \<Rightarrow> heap \<Rightarrow> heap option" where
  "bfs_loop visitor vertices_to_process discovered_vertices h =
     (case vertices_to_process of
        [] \<Rightarrow> Some h
      | examined_vertex # rest \<Rightarrow>
          do {
            h1 \<leftarrow> ExamineVertex visitor examined_vertex h;
            edges \<leftarrow> OutgoingEdges h1 examined_vertex;
            (queue, h2) \<leftarrow> bfs_edges visitor edges (insert examined_vertex discovered_vertices) rest h1;
            bfs_loop visitor queue (insert examined_vertex discovered_vertices) h2
          })"

declare bfs_loop.simps [code]

definition BreadthFirstSearch :: "addr \<Rightarrow> BfsVisitor \<Rightarrow> heap \<Rightarrow> heap option" where
  "BreadthFirstSearch origin_vertex visitor h =
     do {
       h1 \<leftarrow> DiscoverVertex visitor origin_vertex h;
       bfs_loop visitor [origin_vertex] {origin_vertex} h1
     }"

section \<open>The two link calculators\<close>

definition set_suffix_link :: "heap \<Rightarrow> addr \<Rightarrow> addr option \<Rightarrow> heap option" where
  "set_suffix_link h node l =
     (case h node of None \<Rightarrow> None | Some n \<Rightarrow> Some (h(node \<mapsto> n\<lparr>suffix_link := l\<rparr>)))"

definition set_terminal_link :: "heap \<Rightarrow> addr \<Rightarrow> addr option \<Rightarrow> heap option" where
  "set_terminal_link h node l =
     (case h node of None \<Rightarrow> None | Some n \<Rightarrow> Some (h(node \<mapsto> n\<lparr>terminal_link := l\<rparr>)))"

definition SuffixLink_ExamineVertex :: "addr \<Rightarrow> addr \<Rightarrow> heap \<Rightarrow> heap option" where
  "SuffixLink_ExamineVertex root node h =
     (if node = root then set_suffix_link h node (Some node) else Some h)"

definition SuffixLink_ExamineEdge :: "addr \<Rightarrow> Edge \<Rightarrow> heap \<Rightarrow> heap option" where
  "SuffixLink_ExamineEdge root edge h =
     (let origin = edge_target edge; parent = edge_source edge in
      case h parent of None \<Rightarrow> None
      | Some p \<Rightarrow>
         if suffix_link p = Some parent then set_suffix_link h origin (Some parent)
         else do {
           (h1, l) \<leftarrow> GetAutomatonTransition h (suffix_link p) (Some root) (edge_character edge);
           set_suffix_link h1 origin l
         })"

definition SuffixLinkCalculator :: "addr \<Rightarrow> BfsVisitor" where
  "SuffixLinkCalculator root =
     \<lparr>DiscoverVertex = (\<lambda>vertex h. Some h),
      ExamineEdge = SuffixLink_ExamineEdge root,
      ExamineVertex = SuffixLink_ExamineVertex root\<rparr>"

definition TerminalLink_DiscoverVertex :: "addr \<Rightarrow> addr \<Rightarrow> heap \<Rightarrow> heap option" where
  "TerminalLink_DiscoverVertex root node h =
     (case h node of None \<Rightarrow> None
      | Some n \<Rightarrow>
         let suffix_parent = suffix_link n in
         if Some node = suffix_parent then Some h
         else (case suffix_parent of None \<Rightarrow> None
               | Some sp \<Rightarrow>
                  (case h sp of None \<Rightarrow> None
                   | Some s \<Rightarrow>
                      if terminated_string_ids s \<noteq> [] then set_terminal_link h node suffix_parent
                      else set_terminal_link h node (terminal_link s))))"

definition TerminalLinkCalculator :: "addr \<Rightarrow> BfsVisitor" where
  "TerminalLinkCalculator root =
     \<lparr>DiscoverVertex = TerminalLink_DiscoverVertex root,
      ExamineEdge = (\<lambda>edge h. Some h),
      ExamineVertex = (\<lambda>vertex h. Some h)\<rparr>"

section \<open>Node references\<close>

record NodeReference =
  node_ref :: "addr option"
  root_ref :: "addr option"

definition Next :: "NodeReference \<Rightarrow> char \<Rightarrow> heap \<Rightarrow> (heap \<times> NodeReference) option" where
  "Next ref character h =
     do {
       (h1, l) \<leftarrow> GetAutomatonTransition h (node_ref ref) (root_ref ref) character;
       Some (h1, \<lparr>node_ref = l, root_ref = root_ref ref\<rparr>)
     }"

definition IsTerminal :: "NodeReference \<Rightarrow> heap \<Rightarrow> bool option" where
  "IsTerminal ref h =
     do { a \<leftarrow> node_ref ref; n \<leftarrow> h a; Some (terminated_string_ids n \<noteq> []) }"

definition IsRoot :: "NodeReference \<Rightarrow> bool" where
  "IsRoot ref = (node_ref ref = root_ref ref)"

definition TerminalLink :: "NodeReference \<Rightarrow> heap \<Rightarrow> NodeReference option" where
  "TerminalLink ref h =
     do { a \<leftarrow> node_ref ref; n \<leftarrow> h a; Some \<lparr>node_ref = terminal_link n, root_ref = root_ref ref\<rparr> }"

definition TerminatedStringIds :: "NodeReference \<Rightarrow> heap \<Rightarrow> nat list option" where
  "TerminatedStringIds ref h =
     do { a \<leftarrow> node_ref ref; n \<leftarrow> h a; Some (terminated_string_ids n) }"

text \<open>
  The conversion of a \<open>size_t\<close> to \<open>int\<close> keeps the low 32 bits, read as a number in
  two's complement (the rule of the language since C++20, and what compilers did before
  it); the conversion of an \<open>int\<close> to \<open>size_t\<close> is the value modulo \<open>2 ^ 64\<close>.
\<close>

definition size_t_to_int :: "nat \<Rightarrow> int" where
  "size_t_to_int i = (let r = int (i mod 2 ^ 32) in if r < 2 ^ 31 then r else r - 2 ^ 32)"

definition int_to_size_t :: "int \<Rightarrow> nat" where
  "int_to_size_t v = nat (v mod 2 ^ 64)"

text \<open>The callback of \<open>GenerateMatches\<close> works on a state of its own (what its closure
  captures) and may fail; \<open>for_each_id\<close> is the inner loop
  \<open>for (int id : current_node.TerminatedStringIds()) on_match(id)\<close>, which hands the
  callback the identifier as an \<open>int\<close>.\<close>

fun for_each_id :: "(int \<Rightarrow> 'a \<Rightarrow> 'a option) \<Rightarrow> nat list \<Rightarrow> 'a \<Rightarrow> 'a option" where
  "for_each_id on_match [] acc = Some acc"
| "for_each_id on_match (ident # ids) acc =
     do { acc1 \<leftarrow> on_match (size_t_to_int ident) acc; for_each_id on_match ids acc1 }"

text \<open>The \<open>do ... while (current_node)\<close> loop: the body runs before the test, so the
  node it starts from must not be null.\<close>

partial_function (option) GenerateMatches_loop ::
  "heap \<Rightarrow> (int \<Rightarrow> 'a \<Rightarrow> 'a option) \<Rightarrow> NodeReference \<Rightarrow> 'a \<Rightarrow> 'a option" where
  "GenerateMatches_loop h on_match current_node acc =
     do {
       ids \<leftarrow> TerminatedStringIds current_node h;
       acc1 \<leftarrow> for_each_id on_match ids acc;
       next_node \<leftarrow> TerminalLink current_node h;
       if node_ref next_node \<noteq> None then GenerateMatches_loop h on_match next_node acc1
       else Some acc1
     }"

declare GenerateMatches_loop.simps [code]

definition GenerateMatches ::
  "NodeReference \<Rightarrow> heap \<Rightarrow> (int \<Rightarrow> 'a \<Rightarrow> 'a option) \<Rightarrow> 'a \<Rightarrow> 'a option" where
  "GenerateMatches ref h on_match acc = GenerateMatches_loop h on_match ref acc"

section \<open>The automaton and its builder\<close>

text \<open>An \<open>Automaton\<close> is its root node with everything the root owns: a heap whose root
  sits at the empty path.\<close>

definition root_addr :: addr where
  "root_addr = []"

definition Automaton_new :: heap where
  "Automaton_new = Map.empty(root_addr \<mapsto> new_node)"

definition Root :: NodeReference where
  "Root = \<lparr>node_ref = Some root_addr, root_ref = Some root_addr\<rparr>"

record AutomatonBuilder =
  words_b :: "string list"
  ids_b :: "nat list"

definition AutomatonBuilder_new :: AutomatonBuilder where
  "AutomatonBuilder_new = \<lparr>words_b = [], ids_b = []\<rparr>"

definition Add :: "AutomatonBuilder \<Rightarrow> string \<Rightarrow> nat \<Rightarrow> AutomatonBuilder" where
  "Add b str ident = b\<lparr>words_b := words_b b @ [str], ids_b := ids_b b @ [ident]\<rparr>"

text \<open>\<open>AddString\<close>: \<open>last_node->trie_transitions[label]\<close> creates the child when the key
  is absent; the new node lives in the parent's map, at the parent's path extended by the
  label. (The counter \<open>position\<close> of the source is written and never read.)\<close>

fun AddString_loop :: "heap \<Rightarrow> addr \<Rightarrow> string \<Rightarrow> (heap \<times> addr) option" where
  "AddString_loop h last_node [] = Some (h, last_node)"
| "AddString_loop h last_node (label # rest) =
     (case h last_node of None \<Rightarrow> None
      | Some n \<Rightarrow>
         (case map_of (trie_transitions n) label of
            Some child \<Rightarrow> AddString_loop h child rest
          | None \<Rightarrow>
             let child = last_node @ [label] in
             AddString_loop
               (h(last_node \<mapsto> n\<lparr>trie_transitions := map_insert label child (trie_transitions n)\<rparr>,
                  child \<mapsto> new_node))
               child rest))"

definition AddString :: "heap \<Rightarrow> addr \<Rightarrow> nat \<Rightarrow> string \<Rightarrow> heap option" where
  "AddString h root string_id str =
     do {
       (h1, last_node) \<leftarrow> AddString_loop h root str;
       n \<leftarrow> h1 last_node;
       Some (h1(last_node \<mapsto> n\<lparr>terminated_string_ids := terminated_string_ids n @ [string_id]\<rparr>))
     }"

text \<open>\<open>BuildTrie\<close>: the loop over \<open>i\<close>, reading \<open>ids[i]\<close> and \<open>words[i]\<close>; the two
  vectors have the same length, a shorter \<open>ids\<close> would be read out of range.\<close>

fun BuildTrie :: "string list \<Rightarrow> nat list \<Rightarrow> heap \<Rightarrow> heap option" where
  "BuildTrie [] ids h = Some h"
| "BuildTrie (w # words) [] h = None"
| "BuildTrie (w # words) (i # ids) h =
     do { h1 \<leftarrow> AddString h root_addr i w; BuildTrie words ids h1 }"

definition BuildSuffixLinks :: "heap \<Rightarrow> heap option" where
  "BuildSuffixLinks h = BreadthFirstSearch root_addr (SuffixLinkCalculator root_addr) h"

definition BuildTerminalLinks :: "heap \<Rightarrow> heap option" where
  "BuildTerminalLinks h = BreadthFirstSearch root_addr (TerminalLinkCalculator root_addr) h"

definition Build :: "AutomatonBuilder \<Rightarrow> heap option" where
  "Build b =
     do {
       h1 \<leftarrow> BuildTrie (words_b b) (ids_b b) Automaton_new;
       h2 \<leftarrow> BuildSuffixLinks h1;
       BuildTerminalLinks h2
     }"

section \<open>Splitting the pattern\<close>

fun Split_loop :: "(char \<Rightarrow> bool) \<Rightarrow> string \<Rightarrow> string list \<Rightarrow> string list" where
  "Split_loop is_delimiter [] splitted_strings = splitted_strings"
| "Split_loop is_delimiter (symbol # rest) splitted_strings =
     Split_loop is_delimiter rest
       (if is_delimiter symbol then splitted_strings @ [[]]
        else butlast splitted_strings @ [last splitted_strings @ [symbol]])"

definition Split :: "string \<Rightarrow> (char \<Rightarrow> bool) \<Rightarrow> string list" where
  "Split str is_delimiter = Split_loop is_delimiter str [[]]"

section \<open>The wildcard matcher\<close>

record WildcardMatcher =
  words_occurrences_by_position :: "nat list"
  state :: NodeReference
  number_of_words :: nat
  pattern_length :: nat
  aho_corasick_automaton :: "heap option"

definition WildcardMatcher_new :: WildcardMatcher where
  "WildcardMatcher_new =
     \<lparr>words_occurrences_by_position = [], state = \<lparr>node_ref = None, root_ref = None\<rparr>,
      number_of_words = 0, pattern_length = 0, aho_corasick_automaton = None\<rparr>"

text \<open>Subtraction of two \<open>size_t\<close> (64 bits), both operands below \<open>2 ^ 64\<close>.\<close>

definition size_t_sub :: "nat \<Rightarrow> nat \<Rightarrow> nat" where
  "size_t_sub a b = (if b \<le> a then a - b else a + 2 ^ 64 - b)"

text \<open>The closure of \<open>UpdateWordOccurrences\<close>, \<open>[this](size_t id)\<close>: its parameter is a
  \<open>size_t\<close>, so the \<open>int\<close> it is called with is converted to \<open>size_t\<close>; its body is
  \<open>++counters[pattern_length - id]\<close>, and an index outside the deque is undefined
  behaviour.\<close>

definition count_occurrence :: "nat \<Rightarrow> nat \<Rightarrow> nat list \<Rightarrow> nat list option" where
  "count_occurrence len ident counters =
     (let k = size_t_sub len ident in
      if k < length counters then Some (counters[k := counters ! k + 1]) else None)"

definition UpdateWordOccurrences :: "WildcardMatcher \<Rightarrow> WildcardMatcher option" where
  "UpdateWordOccurrences m =
     do {
       h \<leftarrow> aho_corasick_automaton m;
       counters \<leftarrow> GenerateMatches (state m) h
                     (\<lambda>ident. count_occurrence (pattern_length m) (int_to_size_t ident))
                     (words_occurrences_by_position m);
       Some (m\<lparr>words_occurrences_by_position := counters\<rparr>)
     }"

definition ShiftWordOccurrencesCounters :: "WildcardMatcher \<Rightarrow> WildcardMatcher" where
  "ShiftWordOccurrencesCounters m =
     m\<lparr>words_occurrences_by_position := tl (words_occurrences_by_position m @ [0])\<rparr>"

definition Reset :: "WildcardMatcher \<Rightarrow> WildcardMatcher option" where
  "Reset m =
     do {
       h \<leftarrow> aho_corasick_automaton m;
       m1 \<leftarrow> UpdateWordOccurrences
               (m\<lparr>state := Root,
                  words_occurrences_by_position := replicate (pattern_length m + 1) 0\<rparr>);
       Some (ShiftWordOccurrencesCounters m1)
     }"

text \<open>\<open>Scan\<close>: the callback \<open>on_match\<close> acts on what its closure captures.\<close>

definition Scan ::
  "WildcardMatcher \<Rightarrow> char \<Rightarrow> ('a \<Rightarrow> 'a) \<Rightarrow> 'a \<Rightarrow> (WildcardMatcher \<times> 'a) option" where
  "Scan m character on_match acc =
     do {
       h \<leftarrow> aho_corasick_automaton m;
       (h1, st) \<leftarrow> Next (state m) character h;
       m1 \<leftarrow> UpdateWordOccurrences (m\<lparr>state := st, aho_corasick_automaton := Some h1\<rparr>);
       (case words_occurrences_by_position m1 of
          [] \<Rightarrow> None
        | front # _ \<Rightarrow>
            Some (ShiftWordOccurrencesCounters m1,
                  if front = number_of_words m1 then on_match acc else acc))
     }"

text \<open>The loop of \<open>BuildFor\<close> that hands the words and their identifiers to the builder.\<close>

fun BuildFor_loop :: "string list \<Rightarrow> nat \<Rightarrow> AutomatonBuilder \<Rightarrow> AutomatonBuilder" where
  "BuildFor_loop [] string_id abuilder = abuilder"
| "BuildFor_loop (word # words) string_id abuilder =
     BuildFor_loop words (string_id + length word + 1) (Add abuilder word (string_id + length word))"

definition BuildFor_builder :: "string \<Rightarrow> char \<Rightarrow> AutomatonBuilder" where
  "BuildFor_builder pattern wildcard =
     BuildFor_loop (Split pattern (\<lambda>x. x = wildcard)) 0 AutomatonBuilder_new"

definition BuildFor :: "string \<Rightarrow> char \<Rightarrow> WildcardMatcher option" where
  "BuildFor pattern wildcard =
     do {
       let wmatcher = WildcardMatcher_new\<lparr>pattern_length := length pattern\<rparr>;
       let words = Split pattern (\<lambda>x. x = wildcard);
       let wmatcher = wmatcher\<lparr>number_of_words := length words\<rparr>;
       automaton \<leftarrow> Build (BuildFor_builder pattern wildcard);
       Reset (wmatcher\<lparr>aho_corasick_automaton := Some automaton\<rparr>)
     }"

text \<open>The loop of \<open>FindFuzzyMatches\<close> over the text, at index \<open>i\<close> with the rest of the
  text still to scan; \<open>on_match_at i\<close> is the callback built for index \<open>i\<close>.\<close>

fun scan_text ::
  "(nat \<Rightarrow> 'a \<Rightarrow> 'a) \<Rightarrow> WildcardMatcher \<Rightarrow> nat \<Rightarrow> string \<Rightarrow> 'a \<Rightarrow> (WildcardMatcher \<times> 'a) option" where
  "scan_text on_match_at wmatcher i [] acc = Some (wmatcher, acc)"
| "scan_text on_match_at wmatcher i (c # rest) acc =
     do {
       (wmatcher1, acc1) \<leftarrow> Scan wmatcher c (on_match_at i) acc;
       scan_text on_match_at wmatcher1 (i + 1) rest acc1
     }"

definition FindFuzzyMatches :: "string \<Rightarrow> string \<Rightarrow> char \<Rightarrow> nat list option" where
  "FindFuzzyMatches pattern_with_wildcards text wildcard =
     do {
       let pattern_size = length pattern_with_wildcards;
       wmatcher \<leftarrow> BuildFor pattern_with_wildcards wildcard;
       (wmatcher1, occurrences) \<leftarrow>
          scan_text (\<lambda>i occurrences. occurrences @ [size_t_sub (i + 1) pattern_size])
            wmatcher 0 text [];
       Some occurrences
     }"

section \<open>Notions used to state the properties\<close>

text \<open>Joining strings with one separator character between neighbours.\<close>

fun join_with :: "char \<Rightarrow> string list \<Rightarrow> string" where
  "join_with w [] = []"
| "join_with w [x] = x"
| "join_with w (x # y # ys) = x @ [w] @ join_with w (y # ys)"

text \<open>The nodes of the trie of a list of words: the root and every prefix of a word.\<close>

definition trie_nodes :: "string list \<Rightarrow> string set" where
  "trie_nodes ws = insert [] (\<Union>w \<in> set ws. set (prefixes w))"

text \<open>The longest suffix of a string that lies in a set (the empty string if none does).\<close>

fun longest_suffix_in :: "string set \<Rightarrow> string \<Rightarrow> string" where
  "longest_suffix_in T [] = []"
| "longest_suffix_in T (x # xs) = (if x # xs \<in> T then x # xs else longest_suffix_in T xs)"

text \<open>The longest suffix of a string that is one of the words, if there is one.\<close>

fun longest_word_suffix :: "string set \<Rightarrow> string \<Rightarrow> string option" where
  "longest_word_suffix W [] = (if [] \<in> W then Some [] else None)"
| "longest_word_suffix W (x # xs) = (if x # xs \<in> W then Some (x # xs) else longest_word_suffix W xs)"

text \<open>The identifiers, in insertion order, of the words equal to a given string, and the
  identifiers of all words that are suffixes of a string, longest suffix first.\<close>

definition ids_at :: "(string \<times> nat) list \<Rightarrow> string \<Rightarrow> nat list" where
  "ids_at F p = map snd (filter (\<lambda>fi. fst fi = p) F)"

fun ids_of_suffixes :: "(string \<times> nat) list \<Rightarrow> string \<Rightarrow> nat list" where
  "ids_of_suffixes F [] = ids_at F []"
| "ids_of_suffixes F (x # xs) = ids_at F (x # xs) @ ids_of_suffixes F xs"

text \<open>A set of strings that contains every prefix of each member.\<close>

definition prefix_closed :: "string set \<Rightarrow> bool" where
  "prefix_closed T = (\<forall>p c. p @ [c] \<in> T \<longrightarrow> p \<in> T)"

text \<open>
  The shape of the trie over a node set \<open>T\<close>: the heap holds a node exactly at the
  addresses in \<open>T\<close>, and the children map of the node at \<open>p\<close> has exactly the keys \<open>c\<close>
  with \<open>p @ [c]\<close> in \<open>T\<close>, each leading to that address.
\<close>

definition node_shape :: "string set \<Rightarrow> addr \<Rightarrow> AutomatonNode \<Rightarrow> bool" where
  "node_shape T p n \<longleftrightarrow>
     distinct (map fst (trie_transitions n)) \<and>
     (\<forall>c. map_of (trie_transitions n) c = (if p @ [c] \<in> T then Some (p @ [c]) else None))"

definition trie_shape :: "string set \<Rightarrow> heap \<Rightarrow> bool" where
  "trie_shape T h \<longleftrightarrow>
     (\<forall>p. case h p of None \<Rightarrow> p \<notin> T | Some n \<Rightarrow> p \<in> T \<and> node_shape T p n)"

text \<open>The heap after \<open>BuildTrie\<close> has put the words \<open>F\<close> (with their identifiers) in:
  the identifiers sit at the node of their word, caches are empty and links null.\<close>

definition trie_built :: "string set \<Rightarrow> (string \<times> nat) list \<Rightarrow> heap \<Rightarrow> bool" where
  "trie_built T F h \<longleftrightarrow>
     trie_shape T h \<and>
     (\<forall>p n. h p = Some n \<longrightarrow>
        terminated_string_ids n = ids_at F p \<and> automaton_transitions_cache n = Map.empty \<and>
        suffix_link n = None \<and> terminal_link n = None)"

text \<open>
  The state of the breadth-first search over the trie, for the queue \<open>Q\<close>, the set \<open>A\<close> of
  nodes pushed so far and the program's set \<open>disc\<close> of examined nodes: the queue holds
  pushed nodes, in order of depth and at most two depths at once, and the nodes not yet
  pushed are exactly the proper descendants of queued nodes.
\<close>

definition bfs_queue_ok :: "string set \<Rightarrow> addr list \<Rightarrow> addr set \<Rightarrow> addr set \<Rightarrow> bool" where
  "bfs_queue_ok T Q A disc \<longleftrightarrow>
     distinct Q \<and> set Q \<subseteq> A \<and> A \<subseteq> T \<and> disc \<subseteq> A \<and>
     (\<forall>r \<in> T. r \<in> A \<longleftrightarrow> \<not> (\<exists>q \<in> set Q. strict_prefix q r)) \<and>
     sorted_wrt (\<lambda>a b. length a \<le> length b) Q \<and>
     (\<forall>q \<in> set Q. length q \<le> Suc (length (hd Q)))"

text \<open>
  \<open>cache_ext T h h'\<close>: the heap \<open>h'\<close> differs from \<open>h\<close> in transition caches only, and
  every cache entry of \<open>h'\<close> that \<open>h\<close> does not have is the longest suffix, in \<open>T\<close>, of the
  node's path extended by the character.
\<close>

definition cache_ext :: "string set \<Rightarrow> heap \<Rightarrow> heap \<Rightarrow> bool" where
  "cache_ext T h h' \<longleftrightarrow>
     (\<forall>p. (h p = None \<longrightarrow> h' p = None) \<and>
          (\<forall>n. h p = Some n \<longrightarrow>
             (\<exists>n'. h' p = Some n' \<and>
                trie_transitions n' = trie_transitions n \<and>
                terminated_string_ids n' = terminated_string_ids n \<and>
                suffix_link n' = suffix_link n \<and> terminal_link n' = terminal_link n \<and>
                (\<forall>c v. automaton_transitions_cache n' c = Some v \<longrightarrow>
                   automaton_transitions_cache n c = Some v \<or>
                   v = Some (longest_suffix_in T (p @ [c]))))))"

text \<open>What \<open>GetAutomatonTransition\<close> needs of the nodes down to depth \<open>k\<close>: suffix links
  set to the longest proper suffix in the trie, and right cache entries.\<close>

definition links_upto :: "string set \<Rightarrow> nat \<Rightarrow> heap \<Rightarrow> bool" where
  "links_upto T k h \<longleftrightarrow>
     trie_shape T h \<and>
     (\<forall>r n. h r = Some n \<and> length r \<le> k \<longrightarrow>
        (r \<noteq> [] \<longrightarrow> suffix_link n = Some (longest_suffix_in T (tl r))) \<and>
        (\<forall>c v. automaton_transitions_cache n c = Some v \<longrightarrow>
           v = Some (longest_suffix_in T (r @ [c]))))"

text \<open>
  What the links and caches of a node must be. The suffix link of the node at \<open>p\<close> is the
  longest proper suffix of \<open>p\<close> in the trie (the root for the root); its terminal link is
  the longest proper suffix of \<open>p\<close> that is a word, null if there is none or \<open>p\<close> is the
  root; a cache entry for \<open>c\<close> is the longest suffix of \<open>p @ [c]\<close> in the trie. \<open>S1\<close> and
  \<open>S2\<close> are the nodes whose suffix link, respectively terminal link, has been computed.
\<close>

definition tlink_spec :: "string set \<Rightarrow> string \<Rightarrow> string option" where
  "tlink_spec W p = (if p = [] then None else longest_word_suffix W (tl p))"

definition node_ok ::
  "string set \<Rightarrow> (string \<times> nat) list \<Rightarrow> addr set \<Rightarrow> addr set \<Rightarrow> addr \<Rightarrow> AutomatonNode \<Rightarrow> bool" where
  "node_ok T F S1 S2 p n \<longleftrightarrow>
     node_shape T p n \<and> terminated_string_ids n = ids_at F p \<and>
     (\<forall>c v. automaton_transitions_cache n c = Some v \<longrightarrow>
         v = Some (longest_suffix_in T (p @ [c]))) \<and>
     (p \<in> S1 \<longrightarrow> suffix_link n = Some (longest_suffix_in T (tl p))) \<and>
     terminal_link n = (if p \<in> S2 then tlink_spec (fst ` set F) p else None)"

definition heap_ok ::
  "string set \<Rightarrow> (string \<times> nat) list \<Rightarrow> addr set \<Rightarrow> addr set \<Rightarrow> heap \<Rightarrow> bool" where
  "heap_ok T F S1 S2 h \<longleftrightarrow>
     (\<forall>p. case h p of None \<Rightarrow> p \<notin> T | Some n \<Rightarrow> p \<in> T \<and> node_ok T F S1 S2 p n)"

text \<open>The finished automaton for the words and identifiers \<open>F\<close>.\<close>

definition automaton_ok :: "(string \<times> nat) list \<Rightarrow> heap \<Rightarrow> bool" where
  "automaton_ok F h \<longleftrightarrow>
     heap_ok (trie_nodes (map fst F)) F (trie_nodes (map fst F)) (trie_nodes (map fst F)) h"

text \<open>
  The states of a fully built automaton: the heap \<open>Build\<close> returns, and every heap that
  calls of \<open>GetAutomatonTransition\<close> (the only function that writes to a built automaton)
  make of it.
\<close>

inductive automaton_reachable :: "AutomatonBuilder \<Rightarrow> heap \<Rightarrow> bool" for b where
  built: "Build b = Some h \<Longrightarrow> automaton_reachable b h"
| transition: "automaton_reachable b h \<Longrightarrow>
      GetAutomatonTransition h (Some node) (Some root_addr) c = Some (h', r) \<Longrightarrow>
      automaton_reachable b h'"

text \<open>
  The transition function without its cache, as the specification defines it: the trie
  child if there is one, else the root at the root, else the transition of the suffix link.
\<close>

partial_function (option) automaton_transition :: "heap \<Rightarrow> addr \<Rightarrow> addr \<Rightarrow> char \<Rightarrow> addr option" where
  "automaton_transition h node root c =
     (case h node of None \<Rightarrow> None
      | Some n \<Rightarrow>
         (case map_of (trie_transitions n) c of
            Some child \<Rightarrow> Some child
          | None \<Rightarrow>
              if node = root then Some root
              else (case suffix_link n of None \<Rightarrow> None
                    | Some l \<Rightarrow> automaton_transition h l root c)))"

declare automaton_transition.simps [code]

text \<open>The chain of terminal links that starts at a node and ends at the first node
  without a terminal link.\<close>

inductive terminal_chain :: "heap \<Rightarrow> addr \<Rightarrow> addr list \<Rightarrow> bool" for h where
  last: "h p = Some n \<Longrightarrow> terminal_link n = None \<Longrightarrow> terminal_chain h p [p]"
| link: "h p = Some n \<Longrightarrow> terminal_link n = Some q \<Longrightarrow> terminal_chain h q ps \<Longrightarrow>
         terminal_chain h p (p # ps)"

definition ids_in :: "heap \<Rightarrow> addr \<Rightarrow> nat list" where
  "ids_in h p = (case h p of None \<Rightarrow> [] | Some n \<Rightarrow> terminated_string_ids n)"

text \<open>Two heaps with the same nodes that agree on everything but the caches.\<close>

definition same_structure :: "heap \<Rightarrow> heap \<Rightarrow> bool" where
  "same_structure h h' \<longleftrightarrow>
     (\<forall>p. (h p = None \<longleftrightarrow> h' p = None) \<and>
          (\<forall>n n'. h p = Some n \<and> h' p = Some n' \<longrightarrow>
             trie_transitions n' = trie_transitions n \<and>
             terminated_string_ids n' = terminated_string_ids n \<and>
             suffix_link n' = suffix_link n \<and> terminal_link n' = terminal_link n))"

text \<open>Every cache entry is a non-null pointer, the value of the transition function.\<close>

definition cache_pure :: "heap \<Rightarrow> bool" where
  "cache_pure h \<longleftrightarrow>
     (\<forall>p n c v. h p = Some n \<and> automaton_transitions_cache n c = Some v \<longrightarrow>
        v \<noteq> None \<and> automaton_transition h p root_addr c = v)"

section \<open>Notions for the matcher\<close>

text \<open>The fragments of a pattern with their identifiers, as \<open>BuildFor\<close> hands them to the
  automaton builder.\<close>

definition fragments :: "string \<Rightarrow> char \<Rightarrow> (string \<times> nat) list" where
  "fragments pattern wildcard =
     zip (words_b (BuildFor_builder pattern wildcard)) (ids_b (BuildFor_builder pattern wildcard))"

text \<open>The same list by two recursions: over a list of words from a start identifier,
  and over the pattern from a position with the fragment read so far.\<close>

fun with_ids :: "string list \<Rightarrow> nat \<Rightarrow> (string \<times> nat) list" where
  "with_ids [] sid = []"
| "with_ids (x # xs) sid = (x, sid + length x) # with_ids xs (sid + length x + 1)"

fun frags_from :: "char \<Rightarrow> string \<Rightarrow> nat \<Rightarrow> string \<Rightarrow> (string \<times> nat) list" where
  "frags_from w [] pos cur = [(cur, pos)]"
| "frags_from w (c # cs) pos cur =
     (if c = w then (cur, pos) # frags_from w cs (pos + 1) []
      else frags_from w cs (pos + 1) (cur @ [c]))"

text \<open>The pattern matches the text at start position \<open>s\<close>: it fits, and every pattern
  character is the wildcard or the text character at its place.\<close>

definition matches_at :: "string \<Rightarrow> char \<Rightarrow> string \<Rightarrow> nat \<Rightarrow> bool" where
  "matches_at pattern wildcard text s \<longleftrightarrow>
     list_all2 (\<lambda>p t. p = wildcard \<or> p = t) pattern (take (length pattern) (drop s text))"

text \<open>
  The counter window. After the text \<open>txt\<close> has been read and the counters updated, slot
  \<open>j\<close> counts the fragments \<open>(f, i)\<close> that were seen to end \<open>L - (i + j)\<close> characters ago:
  those for which an alignment of the pattern ending \<open>j\<close> characters from now is still
  possible. \<open>earlier_at\<close> leaves out the fragments seen at the current character.
\<close>

definition seen_at :: "nat \<Rightarrow> string \<Rightarrow> nat \<Rightarrow> string \<times> nat \<Rightarrow> bool" where
  "seen_at L txt j fi \<longleftrightarrow>
     L - (snd fi + j) \<le> length txt \<and> suffix (fst fi) (take (length txt - (L - (snd fi + j))) txt)"

definition occurrences_at :: "(string \<times> nat) list \<Rightarrow> nat \<Rightarrow> string \<Rightarrow> nat \<Rightarrow> nat" where
  "occurrences_at F L txt j = length (filter (\<lambda>fi. snd fi + j \<le> L \<and> seen_at L txt j fi) F)"

definition earlier_at :: "(string \<times> nat) list \<Rightarrow> nat \<Rightarrow> string \<Rightarrow> nat \<Rightarrow> nat" where
  "earlier_at F L txt j = length (filter (\<lambda>fi. snd fi + j < L \<and> seen_at L txt j fi) F)"

text \<open>
  What the closure of \<open>UpdateWordOccurrences\<close> receives for a stored identifier: the
  identifier after its conversion to \<open>int\<close> and back to \<open>size_t\<close>. The fragments with these
  identifiers are the ones the counter window counts.
\<close>

definition delivered_id :: "nat \<Rightarrow> nat" where
  "delivered_id i = int_to_size_t (size_t_to_int i)"

definition delivered_fragments :: "string \<Rightarrow> char \<Rightarrow> (string \<times> nat) list" where
  "delivered_fragments pattern wildcard =
     map (\<lambda>fi. (fst fi, delivered_id (snd fi))) (fragments pattern wildcard)"

text \<open>After \<open>txt\<close> has been read, every fragment that ends at the last character is
  delivered with an identifier that is at most the pattern length, so that the indices
  \<open>pattern_length - id\<close> lie inside the counter window.\<close>

definition ids_fit :: "string \<Rightarrow> char \<Rightarrow> string \<Rightarrow> bool" where
  "ids_fit pattern wildcard txt \<longleftrightarrow>
     (\<forall>fi \<in> set (fragments pattern wildcard).
        suffix (fst fi) txt \<longrightarrow> delivered_id (snd fi) \<le> length pattern)"

text \<open>The front counter equals the number of fragments after \<open>txt\<close> has been read.\<close>

definition fires_after :: "string \<Rightarrow> char \<Rightarrow> string \<Rightarrow> bool" where
  "fires_after pattern wildcard txt \<longleftrightarrow>
     occurrences_at (delivered_fragments pattern wildcard) (length pattern) txt 0 =
       length (fragments pattern wildcard)"

text \<open>What a scan of \<open>rest\<close> computes, after \<open>txt\<close> has been read, with the callback \<open>cb i\<close>
  for the text index \<open>i\<close>: \<open>None\<close> as soon as a counter index leaves the window.\<close>

fun run_text :: "string \<Rightarrow> char \<Rightarrow> (nat \<Rightarrow> 'a \<Rightarrow> 'a) \<Rightarrow> string \<Rightarrow> string \<Rightarrow> 'a \<Rightarrow> 'a option" where
  "run_text pattern wildcard cb txt [] acc = Some acc"
| "run_text pattern wildcard cb txt (c # rest) acc =
     (if ids_fit pattern wildcard (txt @ [c])
      then run_text pattern wildcard cb (txt @ [c]) rest
             (if fires_after pattern wildcard (txt @ [c]) then cb (length txt) acc else acc)
      else None)"

text \<open>The matcher for a pattern after it has read \<open>txt\<close> since it was built or reset.\<close>

definition matcher_ok :: "string \<Rightarrow> char \<Rightarrow> string \<Rightarrow> WildcardMatcher \<Rightarrow> bool" where
  "matcher_ok pattern wildcard txt m \<longleftrightarrow>
     (\<exists>h. aho_corasick_automaton m = Some h \<and>
          automaton_reachable (BuildFor_builder pattern wildcard) h) \<and>
     pattern_length m = length pattern \<and>
     number_of_words m = length (fragments pattern wildcard) \<and>
     state m = \<lparr>node_ref = Some (longest_suffix_in
                    (trie_nodes (map fst (fragments pattern wildcard))) txt),
                root_ref = Some root_addr\<rparr> \<and>
     words_occurrences_by_position m =
       map (\<lambda>j. occurrences_at (delivered_fragments pattern wildcard) (length pattern) txt (Suc j))
         [0..<length pattern + 1]"

text \<open>The matchers a program can hold for a pattern: the one \<open>BuildFor\<close> returns, and what
  \<open>Scan\<close> and \<open>Reset\<close> make of them.\<close>

inductive matcher_reachable :: "string \<Rightarrow> char \<Rightarrow> WildcardMatcher \<Rightarrow> bool"
  for pattern wildcard where
  built: "BuildFor pattern wildcard = Some m \<Longrightarrow> matcher_reachable pattern wildcard m"
| scanned: "matcher_reachable pattern wildcard m \<Longrightarrow>
      Scan m c (\<lambda>u::unit. u) () = Some (m', u') \<Longrightarrow> matcher_reachable pattern wildcard m'"
| reset: "matcher_reachable pattern wildcard m \<Longrightarrow> Reset m = Some m' \<Longrightarrow>
      matcher_reachable pattern wildcard m'"

text \<open>A match of the pattern ends right before text position \<open>e\<close>.\<close>

definition match_ends_at :: "string \<Rightarrow> char \<Rightarrow> string \<Rightarrow> nat \<Rightarrow> bool" where
  "match_ends_at pattern wildcard text e \<longleftrightarrow>
     length pattern \<le> e \<and> matches_at pattern wildcard text (e - length pattern)"

text \<open>The text indices at which \<open>on_match\<close> fires: the loop of \<open>FindFuzzyMatches\<close> with a
  callback that records the index instead of the start position.\<close>

definition match_firings :: "string \<Rightarrow> string \<Rightarrow> char \<Rightarrow> nat list option" where
  "match_firings pattern_with_wildcards text wildcard =
     do {
       wmatcher \<leftarrow> BuildFor pattern_with_wildcards wildcard;
       (wmatcher1, fired) \<leftarrow> scan_text (\<lambda>i fired. fired @ [i]) wmatcher 0 text [];
       Some fired
     }"

text \<open>The string \<open>P\<close> occurs in \<open>T\<close> as a substring that starts at position \<open>s\<close>.\<close>

definition occurs_at :: "string \<Rightarrow> string \<Rightarrow> nat \<Rightarrow> bool" where
  "occurs_at P T s \<longleftrightarrow> s + length P \<le> length T \<and> take (length P) (drop s T) = P"

section \<open>Splitting and fragment identifiers\<close>

lemma Split_loop_append:
  "Split_loop d s (acc @ [x]) = acc @ Split_loop d s [x]"
proof (induction s arbitrary: acc x)
  case Nil
  show ?case by simp
next
  case (Cons c cs)
  show ?case
  proof (cases "d c")
    case True
    have "Split_loop d (c # cs) (acc @ [x]) = Split_loop d cs ((acc @ [x]) @ [[]])"
      using True by simp
    also have "\<dots> = (acc @ [x]) @ Split_loop d cs [[]]" by (rule Cons.IH)
    also have "\<dots> = acc @ Split_loop d cs ([x] @ [[]])" using Cons.IH[of "[x]" "[]"] by simp
    finally show ?thesis using True by simp
  next
    case False
    then show ?thesis using Cons.IH[of acc "x @ [c]"] Cons.IH[of "[]" "x @ [c]"] by simp
  qed
qed

lemma Split_loop_Cons:
  "Split_loop d (c # cs) [x] =
     (if d c then x # Split_loop d cs [[]] else Split_loop d cs [x @ [c]])"
  using Split_loop_append[of d cs "[x]" "[]"] by simp

lemma Split_loop_ne: "Split_loop d s [x] \<noteq> []"
  by (induction s arbitrary: x) (auto simp: Split_loop_Cons simp del: Split_loop.simps(2))

lemma Split_loop_length:
  "length (Split_loop (\<lambda>c. c = w) s [x]) = count_list s w + 1"
  by (induction s arbitrary: x) (auto simp: Split_loop_Cons simp del: Split_loop.simps(2))

lemma Split_loop_free:
  "w \<notin> set x \<Longrightarrow> \<forall>y \<in> set (Split_loop (\<lambda>c. c = w) s [x]). w \<notin> set y"
proof (induction s arbitrary: x)
  case Nil
  then show ?case by simp
next
  case (Cons c cs)
  show ?case
  proof (cases "c = w")
    case True
    then show ?thesis using Cons.IH[of "[]"] Cons.prems
      by (simp add: Split_loop_Cons del: Split_loop.simps(2))
  next
    case False
    then show ?thesis using Cons.IH[of "x @ [c]"] Cons.prems
      by (simp add: Split_loop_Cons del: Split_loop.simps(2))
  qed
qed

lemma join_with_Cons: "ys \<noteq> [] \<Longrightarrow> join_with w (x # ys) = x @ [w] @ join_with w ys"
  by (cases ys) auto

lemma Split_loop_join:
  "join_with w (Split_loop (\<lambda>c. c = w) s [x]) = x @ s"
proof (induction s arbitrary: x)
  case Nil
  show ?case by simp
next
  case (Cons c cs)
  show ?case
    using Cons.IH[of "[]"] Cons.IH[of "x @ [c]"] Split_loop_ne[of "\<lambda>c. c = w" cs "[]"]
    by (simp add: Split_loop_Cons join_with_Cons del: Split_loop.simps(2))
qed

text \<open>
  Claim C10. For a delimiter predicate that holds of exactly one character \<open>w\<close>,
  \<open>Split\<close> returns one string more than \<open>w\<close> occurs in the input, none of the returned
  strings contains \<open>w\<close>, joining them with a single \<open>w\<close> between neighbours gives the
  input back, and the result is never the empty list.
\<close>

theorem Split_single_delimiter:
  "length (Split s (\<lambda>c. c = w)) = count_list s w + 1 \<and>
   (\<forall>x \<in> set (Split s (\<lambda>c. c = w)). w \<notin> set x) \<and>
   join_with w (Split s (\<lambda>c. c = w)) = s \<and>
   Split s (\<lambda>c. c = w) \<noteq> []"
  unfolding Split_def
  using Split_loop_length[of w s "[]"] Split_loop_free[of w "[]" s] Split_loop_join[of w s "[]"]
    Split_loop_ne[of "\<lambda>c. c = w" s "[]"]
  by simp

theorem Split_single_delimiter_witness:
  "length (Split ''a??b'' (\<lambda>c. c = CHR ''?'')) = count_list ''a??b'' CHR ''?'' + 1 \<and>
   ''a'' \<in> set (Split ''a??b'' (\<lambda>c. c = CHR ''?'')) \<and> CHR ''?'' \<notin> set ''a'' \<and>
   join_with CHR ''?'' (Split ''a??b'' (\<lambda>c. c = CHR ''?'')) = ''a??b'' \<and>
   Split ''a??b'' (\<lambda>c. c = CHR ''?'') = [''a'', [], ''b'']"
  using Split_single_delimiter[of "''a??b''" "CHR ''?''"]
  by (simp add: Split_def)

lemma BuildFor_loop_words:
  "words_b (BuildFor_loop ws sid b) = words_b b @ ws"
  by (induction ws arbitrary: sid b) (auto simp: Add_def)

lemma BuildFor_loop_ids:
  "ids_b (BuildFor_loop ws sid b) =
     ids_b b @ map (\<lambda>k. sid + sum_list (map length (take (Suc k) ws)) + k) [0..<length ws]"
proof (induction ws arbitrary: sid b)
  case Nil
  show ?case by simp
next
  case (Cons x xs)
  have "map (\<lambda>k. sid + sum_list (map length (take (Suc k) (x # xs))) + k) [0..<length (x # xs)]
      = (sid + length x) # map (\<lambda>k. (sid + length x + 1) + sum_list (map length (take (Suc k) xs)) + k) [0..<length xs]"
  proof -
    have "[0..<length (x # xs)] = 0 # map Suc [0..<length xs]"
      by (simp add: upt_conv_Cons map_Suc_upt del: upt_Suc)
    then show ?thesis by (simp add: o_def del: upt_Suc)
  qed
  then show ?case using Cons.IH[of "sid + length x + 1" "Add b x (sid + length x)"]
    by (simp add: Add_def del: upt_Suc)
qed

section \<open>Suffixes in the trie: the mathematics of the links\<close>

lemma trie_nodes_Nil_in: "[] \<in> trie_nodes ws"
  by (simp add: trie_nodes_def)

lemma trie_nodes_iff: "p \<in> trie_nodes ws \<longleftrightarrow> p = [] \<or> (\<exists>w \<in> set ws. prefix p w)"
  by (auto simp: trie_nodes_def)

lemma trie_nodes_finite: "finite (trie_nodes ws)"
  by (simp add: trie_nodes_def)

lemma trie_nodes_prefix_closed: "prefix_closed (trie_nodes ws)"
  unfolding prefix_closed_def trie_nodes_iff
  by (auto dest: append_prefixD)

lemma trie_nodes_word: "w \<in> set ws \<Longrightarrow> w \<in> trie_nodes ws"
  by (auto simp: trie_nodes_iff)

lemma lsuf_suffix: "suffix (longest_suffix_in T q) q"
  by (induction q) (auto simp: suffix_Cons)

lemma lsuf_in: "[] \<in> T \<Longrightarrow> longest_suffix_in T q \<in> T"
  by (induction q) auto

lemma lsuf_length: "length (longest_suffix_in T q) \<le> length q"
  using lsuf_suffix[of T q] by (rule suffix_length_le)

lemma lsuf_tl_length: "p \<noteq> [] \<Longrightarrow> length (longest_suffix_in T (tl p)) < length p"
  using lsuf_length[of T "tl p"] by (cases p) auto

lemma lsuf_id: "q \<in> T \<Longrightarrow> longest_suffix_in T q = q"
  by (cases q) auto

lemma lsuf_snoc:
  assumes "prefix_closed T"
  shows "longest_suffix_in T (q @ [c]) = longest_suffix_in T (longest_suffix_in T q @ [c])"
proof (induction q)
  case Nil
  show ?case by simp
next
  case (Cons x xs)
  show ?case
  proof (cases "x # xs \<in> T")
    case True
    then show ?thesis by simp
  next
    case False
    have "(x # xs) @ [c] \<notin> T" using False assms unfolding prefix_closed_def by blast
    then show ?thesis using False Cons.IH by simp
  qed
qed

lemma lsuf_step:
  assumes "prefix_closed T"
  shows "longest_suffix_in T (p @ [c]) =
     (if p @ [c] \<in> T then p @ [c] else if p = [] then []
      else longest_suffix_in T (longest_suffix_in T (tl p) @ [c]))"
proof (cases p)
  case Nil
  then show ?thesis by simp
next
  case (Cons x xs)
  then show ?thesis using lsuf_snoc[OF assms, of xs c] by simp
qed

lemma lsuf_tl_snoc:
  assumes "prefix_closed T" "p \<noteq> []"
  shows "longest_suffix_in T (tl (p @ [c])) = longest_suffix_in T (longest_suffix_in T (tl p) @ [c])"
  using assms lsuf_snoc[OF assms(1), of "tl p" c] by (cases p) auto

lemma lterm_lsuf:
  assumes "W \<subseteq> T"
  shows "longest_word_suffix W q =
     (let s = longest_suffix_in T q in
      if s \<in> W then Some s else if s = [] then None else longest_word_suffix W (tl s))"
proof (induction q)
  case Nil
  show ?case by simp
next
  case (Cons x xs)
  show ?case
  proof (cases "x # xs \<in> T")
    case True
    then show ?thesis by (simp add: Let_def)
  next
    case False
    then have "x # xs \<notin> W" using assms by blast
    then show ?thesis using False Cons.IH by (simp add: Let_def)
  qed
qed

lemma ids_at_empty: "p \<notin> fst ` set F \<Longrightarrow> ids_at F p = []"
  by (auto simp: ids_at_def filter_empty_conv)

lemma ids_at_nonempty: "ids_at F p \<noteq> [] \<longleftrightarrow> p \<in> fst ` set F"
  by (auto simp: ids_at_def filter_empty_conv)

lemma ids_of_suffixes_lsuf:
  assumes "fst ` set F \<subseteq> T"
  shows "ids_of_suffixes F (longest_suffix_in T q) = ids_of_suffixes F q"
proof (induction q)
  case Nil
  show ?case by simp
next
  case (Cons x xs)
  show ?case
  proof (cases "x # xs \<in> T")
    case True
    then show ?thesis by simp
  next
    case False
    then have "x # xs \<notin> fst ` set F" using assms by blast
    then show ?thesis using False Cons.IH by (simp add: ids_at_empty)
  qed
qed

lemma ids_of_suffixes_lterm:
  "(case longest_word_suffix (fst ` set F) q of None \<Rightarrow> [] | Some t \<Rightarrow> ids_of_suffixes F t)
     = ids_of_suffixes F q"
  by (induction q) (auto simp: ids_at_empty)

lemma ids_of_suffixes_chain:
  "ids_of_suffixes F p = ids_at F p @
     (case (if p = [] then None else longest_word_suffix (fst ` set F) (tl p)) of
        None \<Rightarrow> [] | Some t \<Rightarrow> ids_of_suffixes F t)"
  using ids_of_suffixes_lterm[of F "tl p"] by (cases p) auto

lemma length_filter_disj:
  "(\<And>x. x \<in> set F \<Longrightarrow> \<not> (P x \<and> Q x)) \<Longrightarrow>
   length (filter (\<lambda>x. P x \<or> Q x) F) = length (filter P F) + length (filter Q F)"
  by (induction F) auto

lemma count_ids_at:
  "length (filter g (ids_at F p)) = length (filter (\<lambda>fi. fst fi = p \<and> g (snd fi)) F)"
  by (simp add: ids_at_def filter_map o_def conj_commute)

lemma count_ids_of_suffixes:
  "length (filter g (ids_of_suffixes F q)) =
     length (filter (\<lambda>fi. suffix (fst fi) q \<and> g (snd fi)) F)"
proof (induction q)
  case Nil
  show ?case by (simp add: count_ids_at)
next
  case (Cons x xs)
  have disj: "\<And>fi. \<not> ((fst fi = x # xs \<and> g (snd fi)) \<and> (suffix (fst fi) xs \<and> g (snd fi)))"
  proof
    fix fi assume "(fst fi = x # xs \<and> g (snd fi)) \<and> (suffix (fst fi) xs \<and> g (snd fi))"
    then have "suffix (x # xs) xs" by metis
    then show False using suffix_length_le[of "x # xs" xs] by simp
  qed
  have "(\<lambda>fi. suffix (fst fi) (x # xs) \<and> g (snd fi)) =
        (\<lambda>fi. (fst fi = x # xs \<and> g (snd fi)) \<or> (suffix (fst fi) xs \<and> g (snd fi)))"
    by (auto simp: suffix_Cons)
  then have "length (filter (\<lambda>fi. suffix (fst fi) (x # xs) \<and> g (snd fi)) F) =
        length (filter (\<lambda>fi. fst fi = x # xs \<and> g (snd fi)) F) +
        length (filter (\<lambda>fi. suffix (fst fi) xs \<and> g (snd fi)) F)"
    using length_filter_disj[of F "\<lambda>fi. fst fi = x # xs \<and> g (snd fi)" "\<lambda>fi. suffix (fst fi) xs \<and> g (snd fi)"] disj
    by simp
  then show ?case using Cons.IH by (simp add: count_ids_at)
qed

section \<open>Building the trie\<close>

lemma map_insert_map_of:
  "map_of m c = None \<Longrightarrow> map_of (map_insert c a m) x = (if x = c then Some a else map_of m x)"
  by (induction c a m rule: map_insert.induct) (auto split: if_splits)

lemma map_insert_keys: "fst ` set (map_insert c a m) = insert c (fst ` set m)"
  by (induction c a m rule: map_insert.induct) auto

lemma map_insert_distinct:
  "distinct (map fst m) \<Longrightarrow> map_of m c = None \<Longrightarrow> distinct (map fst (map_insert c a m))"
proof (induction m)
  case Nil
  show ?case by simp
next
  case (Cons kv m)
  obtain k v where kv: "kv = (k, v)" by (cases kv)
  have "k \<noteq> c" "map_of m c = None" using Cons.prems(2) kv by (auto split: if_splits)
  then show ?case using Cons kv by (auto simp: map_insert_keys)
qed

lemma trie_shape_SomeD:
  "trie_shape T h \<Longrightarrow> h p = Some n \<Longrightarrow> p \<in> T \<and> node_shape T p n"
  unfolding trie_shape_def by (drule spec[of _ p]) simp

lemma trie_shape_inD: "trie_shape T h \<Longrightarrow> p \<in> T \<Longrightarrow> \<exists>n. h p = Some n \<and> node_shape T p n"
  unfolding trie_shape_def by (drule spec[of _ p]) (cases "h p"; simp)

lemma trie_shapeI:
  assumes "\<And>p. p \<notin> T \<Longrightarrow> h p = None"
     and "\<And>p. p \<in> T \<Longrightarrow> \<exists>n. h p = Some n \<and> node_shape T p n"
  shows "trie_shape T h"
  unfolding trie_shape_def
proof
  fix p
  show "case h p of None \<Rightarrow> p \<notin> T | Some n \<Rightarrow> p \<in> T \<and> node_shape T p n"
  proof (cases "p \<in> T")
    case True
    then show ?thesis using assms(2)[of p] by auto
  next
    case False
    then show ?thesis using assms(1)[of p] by simp
  qed
qed

lemma trie_shape_notin: "trie_shape T h \<Longrightarrow> p \<notin> T \<Longrightarrow> h p = None"
  unfolding trie_shape_def by (drule spec[of _ p]) (cases "h p"; simp)

lemma trie_built_add_child:
  assumes tb: "trie_built T F h" and pc: "prefix_closed T" and fT: "fst ` set F \<subseteq> T"
    and l: "h l = Some n" and none: "map_of (trie_transitions n) c = None"
  shows "trie_built (insert (l @ [c]) T) F
           (h(l \<mapsto> n\<lparr>trie_transitions := map_insert c (l @ [c]) (trie_transitions n)\<rparr>,
              l @ [c] \<mapsto> new_node))"
    (is "trie_built ?T F ?h")
proof -
  have sh: "trie_shape T h" using tb by (simp add: trie_built_def)
  have lT: "l \<in> T" and ln: "node_shape T l n" using trie_shape_SomeD[OF sh l] by auto
  have cnew: "l @ [c] \<notin> T" using ln none by (auto simp: node_shape_def split: if_splits)
  have gc: "\<And>d. (l @ [c]) @ [d] \<notin> T" using cnew pc unfolding prefix_closed_def by blast
  have "trie_shape ?T ?h"
  proof (rule trie_shapeI)
    fix p assume "p \<notin> ?T"
    then show "?h p = None" using trie_shape_notin[OF sh, of p] lT by auto
  next
    fix p assume pT: "p \<in> ?T"
    show "\<exists>n. ?h p = Some n \<and> node_shape ?T p n"
    proof (cases "p = l @ [c]")
      case True
      have "node_shape ?T (l @ [c]) new_node" using gc
        by (auto simp: node_shape_def new_node_def)
      then show ?thesis using True by simp
    next
      case False
      note ne = this
      show ?thesis
      proof (cases "p = l")
        case True
        have "node_shape ?T l (n\<lparr>trie_transitions := map_insert c (l @ [c]) (trie_transitions n)\<rparr>)"
          using ln none by (auto simp: node_shape_def map_insert_map_of map_insert_distinct)
        then show ?thesis using True by simp
      next
        case False
        have pT': "p \<in> T" using pT ne by simp
        obtain m where m: "h p = Some m" "node_shape T p m" using trie_shape_inD[OF sh pT'] by blast
        have "node_shape ?T p m" using m(2) False by (auto simp: node_shape_def)
        then show ?thesis using m(1) False ne by simp
      qed
    qed
  qed
  moreover have "\<forall>p m. ?h p = Some m \<longrightarrow>
        terminated_string_ids m = ids_at F p \<and> automaton_transitions_cache m = Map.empty \<and>
        suffix_link m = None \<and> terminal_link m = None"
  proof (intro allI impI)
    fix p m assume pm: "?h p = Some m"
    have old: "terminated_string_ids n = ids_at F l \<and> automaton_transitions_cache n = Map.empty \<and>
        suffix_link n = None \<and> terminal_link n = None"
      using tb l by (simp add: trie_built_def)
    have "l @ [c] \<notin> fst ` set F" using cnew fT by blast
    then have e: "ids_at F (l @ [c]) = []" by (rule ids_at_empty)
    show "terminated_string_ids m = ids_at F p \<and> automaton_transitions_cache m = Map.empty \<and>
        suffix_link m = None \<and> terminal_link m = None"
    proof (cases "p = l @ [c]")
      case True
      then show ?thesis using pm e by (auto simp: new_node_def)
    next
      case False
      then show ?thesis using pm old tb by (cases "p = l") (auto simp: trie_built_def)
    qed
  qed
  ultimately show ?thesis by (simp add: trie_built_def)
qed

lemma prefix_closed_insert:
  "prefix_closed T \<Longrightarrow> l \<in> T \<Longrightarrow> prefix_closed (insert (l @ [c]) T)"
  unfolding prefix_closed_def by auto

lemma AddString_loop_inv:
  assumes "trie_built T F h" "prefix_closed T" "fst ` set F \<subseteq> T" "l \<in> T"
  shows "\<exists>h'. AddString_loop h l rest = Some (h', l @ rest) \<and>
              trie_built (T \<union> (\<lambda>r. l @ r) ` set (prefixes rest)) F h'"
  using assms
proof (induction rest arbitrary: h l T)
  case Nil
  then show ?case by (simp add: insert_absorb)
next
  case (Cons c cs)
  have sh: "trie_shape T h" using Cons.prems(1) by (simp add: trie_built_def)
  obtain n where n: "h l = Some n" "node_shape T l n"
    using trie_shape_inD[OF sh Cons.prems(4)] by blast
  have img: "(\<lambda>r. l @ r) ` set (prefixes (c # cs)) =
             insert l ((\<lambda>r. (l @ [c]) @ r) ` set (prefixes cs))"
    by (auto simp: image_image)
  show ?case
  proof (cases "map_of (trie_transitions n) c")
    case None
    let ?h = "h(l \<mapsto> n\<lparr>trie_transitions := map_insert c (l @ [c]) (trie_transitions n)\<rparr>,
              l @ [c] \<mapsto> new_node)"
    have 1: "trie_built (insert (l @ [c]) T) F ?h"
      by (rule trie_built_add_child[OF Cons.prems(1,2,3) n(1) None])
    have 2: "prefix_closed (insert (l @ [c]) T)"
      by (rule prefix_closed_insert[OF Cons.prems(2,4)])
    have 3: "fst ` set F \<subseteq> insert (l @ [c]) T" using Cons.prems(3) by auto
    obtain h' where h': "AddString_loop ?h (l @ [c]) cs = Some (h', (l @ [c]) @ cs)"
       "trie_built (insert (l @ [c]) T \<union> (\<lambda>r. (l @ [c]) @ r) ` set (prefixes cs)) F h'"
      using Cons.IH[OF 1 2 3 insertI1] by blast
    have eq: "insert (l @ [c]) T \<union> (\<lambda>r. (l @ [c]) @ r) ` set (prefixes cs) =
          T \<union> (\<lambda>r. l @ r) ` set (prefixes (c # cs))"
      unfolding img using Cons.prems(4) by auto
    show ?thesis using h' n(1) None unfolding eq by (simp add: Let_def)
  next
    case (Some child)
    have ch: "child = l @ [c]" "l @ [c] \<in> T"
      using n(2) Some by (auto simp: node_shape_def split: if_splits)
    obtain h' where h': "AddString_loop h (l @ [c]) cs = Some (h', (l @ [c]) @ cs)"
       "trie_built (T \<union> (\<lambda>r. (l @ [c]) @ r) ` set (prefixes cs)) F h'"
      using Cons.IH[OF Cons.prems(1,2,3) ch(2)] by blast
    have eq: "T \<union> (\<lambda>r. (l @ [c]) @ r) ` set (prefixes cs) =
          T \<union> (\<lambda>r. l @ r) ` set (prefixes (c # cs))"
      unfolding img using Cons.prems(4) by auto
    show ?thesis using h' n(1) Some ch unfolding eq by simp
  qed
qed

lemma trie_nodes_snoc: "trie_nodes (ws @ [w]) = trie_nodes ws \<union> set (prefixes w)"
  by (auto simp: trie_nodes_def)

lemma ids_at_snoc: "ids_at (F @ [(w, i)]) p = ids_at F p @ (if p = w then [i] else [])"
  by (auto simp: ids_at_def)

lemma AddString_inv:
  assumes tb: "trie_built (trie_nodes (map fst F)) F h"
  shows "\<exists>h'. AddString h root_addr i w = Some h' \<and>
               trie_built (trie_nodes (map fst (F @ [(w, i)]))) (F @ [(w, i)]) h'"
proof -
  let ?T = "trie_nodes (map fst F)"
  have fT: "fst ` set F \<subseteq> ?T" using trie_nodes_word[of _ "map fst F"] by auto
  obtain h1 where h1: "AddString_loop h [] w = Some (h1, [] @ w)"
      "trie_built (?T \<union> (\<lambda>r. [] @ r) ` set (prefixes w)) F h1"
    using AddString_loop_inv[OF tb trie_nodes_prefix_closed fT trie_nodes_Nil_in, of w] by blast
  let ?T' = "trie_nodes (map fst (F @ [(w, i)]))"
  have T': "?T \<union> (\<lambda>r. [] @ r) ` set (prefixes w) = ?T'"
    by (simp add: trie_nodes_snoc)
  have tb1: "trie_built ?T' F h1" using h1(2) unfolding T' .
  then have sh1: "trie_shape ?T' h1" by (simp add: trie_built_def)
  have "w \<in> ?T'" by (simp add: trie_nodes_iff)
  then obtain n where n: "h1 w = Some n" "node_shape ?T' w n"
    using trie_shape_inD[OF sh1] by blast
  let ?h2 = "h1(w \<mapsto> n\<lparr>terminated_string_ids := terminated_string_ids n @ [i]\<rparr>)"
  have "trie_shape ?T' ?h2"
  proof (rule trie_shapeI)
    fix p assume "p \<notin> ?T'"
    then show "?h2 p = None" using trie_shape_notin[OF sh1, of p] \<open>w \<in> ?T'\<close> by auto
  next
    fix p assume pT: "p \<in> ?T'"
    obtain m where m: "h1 p = Some m" "node_shape ?T' p m" using trie_shape_inD[OF sh1 pT] by blast
    show "\<exists>n. ?h2 p = Some n \<and> node_shape ?T' p n"
    proof (cases "p = w")
      case True
      then have "node_shape ?T' p (n\<lparr>terminated_string_ids := terminated_string_ids n @ [i]\<rparr>)"
        using n(2) by (simp add: node_shape_def)
      then show ?thesis using True by simp
    next
      case False
      then show ?thesis using m by simp
    qed
  qed
  moreover have "\<forall>p m. ?h2 p = Some m \<longrightarrow>
        terminated_string_ids m = ids_at (F @ [(w, i)]) p \<and> automaton_transitions_cache m = Map.empty \<and>
        suffix_link m = None \<and> terminal_link m = None"
  proof (intro allI impI)
    fix p m assume pm: "?h2 p = Some m"
    have old: "\<And>q k. h1 q = Some k \<Longrightarrow> terminated_string_ids k = ids_at F q \<and>
        automaton_transitions_cache k = Map.empty \<and> suffix_link k = None \<and> terminal_link k = None"
      using tb1 unfolding trie_built_def by blast
    show "terminated_string_ids m = ids_at (F @ [(w, i)]) p \<and> automaton_transitions_cache m = Map.empty \<and>
        suffix_link m = None \<and> terminal_link m = None"
    proof (cases "p = w")
      case True
      then have "m = n\<lparr>terminated_string_ids := terminated_string_ids n @ [i]\<rparr>" using pm by simp
      then show ?thesis using old[OF n(1)] True by (simp add: ids_at_snoc)
    next
      case False
      then have "h1 p = Some m" using pm by simp
      then show ?thesis using old[of p m] False by (simp add: ids_at_snoc)
    qed
  qed
  ultimately have "trie_built ?T' (F @ [(w, i)]) ?h2" unfolding trie_built_def by blast
  then show ?thesis using h1(1) n(1) by (simp add: AddString_def root_addr_def)
qed

lemma BuildTrie_inv:
  assumes "length ws \<le> length ids" "trie_built (trie_nodes (map fst F)) F h"
  shows "\<exists>h'. BuildTrie ws ids h = Some h' \<and>
               trie_built (trie_nodes (map fst (F @ zip ws ids))) (F @ zip ws ids) h'"
  using assms
proof (induction ws ids h arbitrary: F rule: BuildTrie.induct)
  case (1 ids h)
  then show ?case by simp
next
  case (2 w ws h)
  then show ?case by simp
next
  case (3 w ws i ids h)
  obtain h1 where h1: "AddString h root_addr i w = Some h1"
     "trie_built (trie_nodes (map fst (F @ [(w, i)]))) (F @ [(w, i)]) h1"
    using AddString_inv[OF "3.prems"(2)] by blast
  have len: "length ws \<le> length ids" using "3.prems"(1) by simp
  obtain h' where h': "BuildTrie ws ids h1 = Some h'"
     "trie_built (trie_nodes (map fst ((F @ [(w, i)]) @ zip ws ids))) ((F @ [(w, i)]) @ zip ws ids) h'"
    using "3.IH"[OF h1(1) len h1(2)] by blast
  show ?case using h1(1) h' by simp
qed

lemma trie_built_new: "trie_built (trie_nodes []) [] Automaton_new"
proof -
  have T: "trie_nodes [] = {[]}" by (simp add: trie_nodes_def)
  have "trie_shape {[]} Automaton_new"
    by (rule trie_shapeI) (simp_all add: Automaton_new_def root_addr_def node_shape_def new_node_def)
  moreover have "\<And>p n. Automaton_new p = Some n \<Longrightarrow> n = new_node"
    by (simp add: Automaton_new_def split: if_splits)
  ultimately show ?thesis unfolding T trie_built_def
    by (fastforce simp: new_node_def ids_at_def)
qed

lemma BuildTrie_new:
  assumes "length ws \<le> length ids"
  shows "\<exists>h'. BuildTrie ws ids Automaton_new = Some h' \<and>
               trie_built (trie_nodes ws) (zip ws ids) h'"
proof -
  have "map fst (zip ws ids) = ws" using assms by (simp add: map_fst_zip_take)
  then show ?thesis using BuildTrie_inv[OF assms, of "[]"] trie_built_new by simp
qed

lemma BuildTrie_Some_length: "BuildTrie ws ids h = Some h' \<Longrightarrow> length ws \<le> length ids"
  by (induction ws ids h rule: BuildTrie.induct) (auto split: Option.bind_splits)

section \<open>Breadth-first search over the trie\<close>

lemma OutgoingEdges_shape:
  assumes sh: "trie_shape T h" and p: "p \<in> T"
  shows "\<exists>es. OutgoingEdges h p = Some es \<and> distinct (map edge_target es) \<and>
           (\<forall>e \<in> set es. e = \<lparr>edge_source = p, edge_target = p @ [edge_character e],
                                 edge_character = edge_character e\<rparr> \<and> p @ [edge_character e] \<in> T) \<and>
           set (map edge_target es) = {q \<in> T. \<exists>c. q = p @ [c]}"
proof -
  obtain n where n: "h p = Some n" "node_shape T p n" using trie_shape_inD[OF sh p] by blast
  let ?tt = "trie_transitions n"
  let ?es = "map (\<lambda>(c, t). \<lparr>edge_source = p, edge_target = t, edge_character = c\<rparr>) ?tt"
  have d: "distinct (map fst ?tt)" using n(2) by (simp add: node_shape_def)
  have mo: "\<And>c. map_of ?tt c = (if p @ [c] \<in> T then Some (p @ [c]) else None)"
    using n(2) by (simp add: node_shape_def)
  have mem: "\<And>c t. (c, t) \<in> set ?tt \<Longrightarrow> t = p @ [c] \<and> p @ [c] \<in> T"
  proof -
    fix c t assume "(c, t) \<in> set ?tt"
    then have "map_of ?tt c = Some t" using d by simp
    then show "t = p @ [c] \<and> p @ [c] \<in> T" using mo[of c] by (auto split: if_splits)
  qed
  have tgt: "map edge_target ?es = map (\<lambda>ct. p @ [fst ct]) ?tt"
    using mem by (auto simp: o_def)
  have "inj (\<lambda>c. p @ [c])" by (simp add: inj_def)
  then have "distinct (map (\<lambda>c. p @ [c]) (map fst ?tt))" using d by (simp add: distinct_map inj_on_def)
  then have 1: "distinct (map edge_target ?es)" unfolding tgt by (simp add: o_def)
  have 2: "\<forall>e \<in> set ?es. e = \<lparr>edge_source = p, edge_target = p @ [edge_character e],
                                 edge_character = edge_character e\<rparr> \<and> p @ [edge_character e] \<in> T"
    using mem by fastforce
  have 3: "set (map edge_target ?es) = {q \<in> T. \<exists>c. q = p @ [c]}"
  proof
    show "set (map edge_target ?es) \<subseteq> {q \<in> T. \<exists>c. q = p @ [c]}"
    proof
      fix q assume "q \<in> set (map edge_target ?es)"
      then obtain ct where "ct \<in> set ?tt" "q = p @ [fst ct]" unfolding tgt by auto
      then show "q \<in> {q \<in> T. \<exists>c. q = p @ [c]}" using mem[of "fst ct" "snd ct"] by auto
    qed
    show "{q \<in> T. \<exists>c. q = p @ [c]} \<subseteq> set (map edge_target ?es)"
    proof
      fix q assume "q \<in> {q \<in> T. \<exists>c. q = p @ [c]}"
      then obtain c where c: "q = p @ [c]" "p @ [c] \<in> T" by auto
      then have "map_of ?tt c = Some q" using mo[of c] by simp
      then have "(c, q) \<in> set ?tt" by (rule map_of_SomeD)
      then show "q \<in> set (map edge_target ?es)" unfolding tgt using c(1) by force
    qed
  qed
  have "OutgoingEdges h p = Some ?es" using n(1) by (simp add: OutgoingEdges_def)
  then show ?thesis using 1 2 3 by blast
qed

lemma bfs_edges_tree:
  assumes estep: "\<And>A h c. Inv A h \<Longrightarrow> A0 \<subseteq> A \<Longrightarrow> p @ [c] \<in> T \<Longrightarrow> p @ [c] \<notin> A \<Longrightarrow>
            \<exists>h1 h2. ExamineEdge vis \<lparr>edge_source = p, edge_target = p @ [c], edge_character = c\<rparr> h = Some h1 \<and>
                    DiscoverVertex vis (p @ [c]) h1 = Some h2 \<and> Inv (insert (p @ [c]) A) h2"
    and inv: "Inv A h" and sub: "A0 \<subseteq> A"
    and es: "\<forall>e \<in> set es. e = \<lparr>edge_source = p, edge_target = p @ [edge_character e],
                                 edge_character = edge_character e\<rparr> \<and> p @ [edge_character e] \<in> T"
    and dist: "distinct (map edge_target es)"
    and newA: "set (map edge_target es) \<inter> A = {}"
    and newD: "set (map edge_target es) \<inter> disc = {}"
  shows "\<exists>h'. bfs_edges vis es disc Q h = Some (Q @ map edge_target es, h') \<and>
              Inv (A \<union> set (map edge_target es)) h'"
  using inv sub es dist newA newD
proof (induction es arbitrary: Q A h)
  case Nil
  then show ?case by simp
next
  case (Cons e es)
  let ?c = "edge_character e"
  have e: "e = \<lparr>edge_source = p, edge_target = p @ [?c], edge_character = ?c\<rparr>" "p @ [?c] \<in> T"
    using Cons.prems(3) by auto
  have tgt: "edge_target e = p @ [?c]" using e(1) by (metis Edge.select_convs(2))
  have notA: "p @ [?c] \<notin> A" using Cons.prems(5) tgt by auto
  have notD: "p @ [?c] \<notin> disc" using Cons.prems(6) tgt by auto
  obtain h1 h2 where s: "ExamineEdge vis e h = Some h1" "DiscoverVertex vis (p @ [?c]) h1 = Some h2"
      "Inv (insert (p @ [?c]) A) h2"
    using estep[OF Cons.prems(1,2) e(2) notA] e(1) by metis
  have 1: "A0 \<subseteq> insert (p @ [?c]) A" using Cons.prems(2) by auto
  have 2: "\<forall>e \<in> set es. e = \<lparr>edge_source = p, edge_target = p @ [edge_character e],
                                 edge_character = edge_character e\<rparr> \<and> p @ [edge_character e] \<in> T"
    using Cons.prems(3) by simp
  have 3: "distinct (map edge_target es)" using Cons.prems(4) by simp
  have 4: "set (map edge_target es) \<inter> insert (p @ [?c]) A = {}"
    using Cons.prems(4,5) tgt by auto
  have 5: "set (map edge_target es) \<inter> disc = {}" using Cons.prems(6) by auto
  obtain h' where h': "bfs_edges vis es disc (Q @ [p @ [?c]]) h2 =
        Some ((Q @ [p @ [?c]]) @ map edge_target es, h')"
      "Inv (insert (p @ [?c]) A \<union> set (map edge_target es)) h'"
    using Cons.IH[OF s(3) 1 2 3 4 5] by blast
  have "bfs_edges vis (e # es) disc Q h = bfs_edges vis es disc (Q @ [p @ [?c]]) h2"
    using s(1,2) notD tgt by (simp add: GetTarget_def)
  then show ?case using h' tgt by simp
qed

lemma prefix_closed_prefix:
  assumes "prefix_closed T" "q @ s \<in> T"
  shows "q \<in> T"
  using assms(2)
proof (induction s rule: rev_induct)
  case Nil
  then show ?case by simp
next
  case (snoc x xs)
  have "(q @ xs) @ [x] \<in> T" using snoc.prems by simp
  then have "q @ xs \<in> T" using assms(1) unfolding prefix_closed_def by blast
  then show ?case by (rule snoc.IH)
qed

lemma sorted_wrt_all: "(\<And>x y. x \<in> set xs \<Longrightarrow> y \<in> set xs \<Longrightarrow> P x y) \<Longrightarrow> sorted_wrt P xs"
  by (induction xs) auto

lemma bfs_queue_lower:
  assumes ok: "bfs_queue_ok T (p # Q) A disc" and r: "r \<in> T" "length r \<le> length p"
  shows "r \<in> A"
proof (rule ccontr)
  assume "r \<notin> A"
  then obtain q where q: "q \<in> set (p # Q)" "strict_prefix q r"
    using ok r(1) unfolding bfs_queue_ok_def by blast
  have "length p \<le> length q" using ok q(1) unfolding bfs_queue_ok_def by auto
  moreover have "length q < length r" using q(2) by (rule prefix_length_less)
  ultimately show False using r(2) by simp
qed

lemma bfs_queue_children_new:
  assumes ok: "bfs_queue_ok T (p # Q) A disc" and cs: "set cs = {q \<in> T. \<exists>c. q = p @ [c]}"
  shows "set cs \<inter> A = {}"
proof -
  have "\<And>q. q \<in> set cs \<Longrightarrow> q \<notin> A"
  proof -
    fix q assume "q \<in> set cs"
    then obtain c where c: "q = p @ [c]" "q \<in> T" using cs by auto
    have "strict_prefix p q" using c(1) by (simp add: strict_prefix_def)
    then have "\<exists>x \<in> set (p # Q). strict_prefix x q" by auto
    then show "q \<notin> A" using ok c(2) unfolding bfs_queue_ok_def by blast
  qed
  then show ?thesis by auto
qed

lemma bfs_queue_step:
  assumes ok: "bfs_queue_ok T (p # Q) A disc" and pc: "prefix_closed T"
    and d: "distinct cs" and cs: "set cs = {q \<in> T. \<exists>c. q = p @ [c]}"
  shows "bfs_queue_ok T (Q @ cs) (A \<union> set cs) (insert p disc)"
proof -
  have new: "set cs \<inter> A = {}" by (rule bfs_queue_children_new[OF ok cs])
  have dQ: "distinct Q" "p \<notin> set Q" and QA: "set Q \<subseteq> A" and pA: "p \<in> A" and AT: "A \<subseteq> T"
    and dA: "disc \<subseteq> A"
    using ok unfolding bfs_queue_ok_def by auto
  have G3: "\<And>r. r \<in> T \<Longrightarrow> r \<in> A \<longleftrightarrow> \<not> (\<exists>q \<in> set (p # Q). strict_prefix q r)"
    using ok unfolding bfs_queue_ok_def by blast
  have srt: "sorted_wrt (\<lambda>a b. length a \<le> length b) (p # Q)"
    and bnd: "\<And>q. q \<in> set Q \<Longrightarrow> length q \<le> Suc (length p)"
    using ok unfolding bfs_queue_ok_def by auto
  have lenc: "\<And>q. q \<in> set cs \<Longrightarrow> length q = Suc (length p)" using cs by auto
  have pT: "p \<in> T" using pA AT by auto
  have 1: "distinct (Q @ cs)" using dQ d new QA by auto
  have 2: "set (Q @ cs) \<subseteq> A \<union> set cs" using QA by auto
  have 3: "A \<union> set cs \<subseteq> T" using AT cs by auto
  have 4: "insert p disc \<subseteq> A \<union> set cs" using pA dA by auto
  have 5: "\<forall>r \<in> T. r \<in> A \<union> set cs \<longleftrightarrow> \<not> (\<exists>q \<in> set (Q @ cs). strict_prefix q r)"
  proof
    fix r assume rT: "r \<in> T"
    show "r \<in> A \<union> set cs \<longleftrightarrow> \<not> (\<exists>q \<in> set (Q @ cs). strict_prefix q r)"
    proof
      assume rin: "r \<in> A \<union> set cs"
      show "\<not> (\<exists>q \<in> set (Q @ cs). strict_prefix q r)"
      proof
        assume "\<exists>q \<in> set (Q @ cs). strict_prefix q r"
        then obtain q where q: "q \<in> set Q \<or> q \<in> set cs" "strict_prefix q r" by auto
        show False
        proof (cases "r \<in> A")
          case True
          then have no: "\<not> (\<exists>q \<in> set (p # Q). strict_prefix q r)" using G3[OF rT] by simp
          from q(1) show False
          proof
            assume "q \<in> set Q" then show False using no q(2) by auto
          next
            assume "q \<in> set cs"
            then obtain c where "q = p @ [c]" using cs by auto
            then have "strict_prefix p r" using q(2)
              by (auto simp: strict_prefix_def prefix_def)
            then show False using no by auto
          qed
        next
          case False
          then have rc: "r \<in> set cs" using rin by simp
          then obtain c where c: "r = p @ [c]" using cs by auto
          from q(1) show False
          proof
            assume qQ: "q \<in> set Q"
            have "prefix q p" using q(2) c by (auto simp: strict_prefix_def)
            moreover have "q \<noteq> p" using qQ dQ(2) by auto
            ultimately have "strict_prefix q p" by (simp add: strict_prefix_def)
            then show False using G3[OF pT] pA qQ by auto
          next
            assume "q \<in> set cs"
            then have "length q = length r" using lenc rc by simp
            then show False using prefix_length_less[OF q(2)] by simp
          qed
        qed
      qed
    next
      assume no: "\<not> (\<exists>q \<in> set (Q @ cs). strict_prefix q r)"
      show "r \<in> A \<union> set cs"
      proof (rule ccontr)
        assume out: "r \<notin> A \<union> set cs"
        then obtain q where q: "q \<in> set (p # Q)" "strict_prefix q r" using G3[OF rT] by auto
        have "q = p" using q no by auto
        then obtain c s where r: "r = p @ c # s" using q(2)
          by (metis strict_prefixE' )
        have "(p @ [c]) @ s \<in> T" using rT r by simp
        then have "p @ [c] \<in> T" by (rule prefix_closed_prefix[OF pc])
        then have pc_in: "p @ [c] \<in> set cs" using cs by auto
        then have "r \<noteq> p @ [c]" using out by auto
        then have "strict_prefix (p @ [c]) r" using r by (auto simp: strict_prefix_def)
        then show False using no pc_in by auto
      qed
    qed
  qed
  have 6: "sorted_wrt (\<lambda>a b. length a \<le> length b) (Q @ cs)"
    unfolding sorted_wrt_append
    using srt bnd lenc by (auto intro!: sorted_wrt_all)
  have 7: "\<forall>q \<in> set (Q @ cs). length q \<le> Suc (length (hd (Q @ cs)))"
  proof
    fix q assume q: "q \<in> set (Q @ cs)"
    have ql: "length q \<le> Suc (length p)" using q bnd lenc by auto
    have "hd (Q @ cs) \<in> set (Q @ cs)" using q by (intro hd_in_set) auto
    then have "length p \<le> length (hd (Q @ cs))" using srt lenc by auto
    then show "length q \<le> Suc (length (hd (Q @ cs)))" using ql by simp
  qed
  show ?thesis unfolding bfs_queue_ok_def using 1 2 3 4 5 6 7 by blast
qed


lemma bfs_loop_tree:
  assumes fin: "finite T" and pc: "prefix_closed T"
    and shape: "\<And>E A h. Inv E A h \<Longrightarrow> trie_shape T h"
    and vstep: "\<And>E A h p. Inv E A h \<Longrightarrow> p \<in> A \<Longrightarrow> p \<notin> E \<Longrightarrow>
                  (\<forall>r \<in> T. length r \<le> length p \<longrightarrow> r \<in> A) \<Longrightarrow>
                  \<exists>h1. ExamineVertex vis p h = Some h1 \<and> Inv (insert p E) A h1"
    and estep: "\<And>E A h p c. Inv E A h \<Longrightarrow> p \<in> E \<Longrightarrow>
                  (\<forall>r \<in> T. length r \<le> length p \<longrightarrow> r \<in> A) \<Longrightarrow> p @ [c] \<in> T \<Longrightarrow> p @ [c] \<notin> A \<Longrightarrow>
                  \<exists>h1 h2. ExamineEdge vis \<lparr>edge_source = p, edge_target = p @ [c], edge_character = c\<rparr> h = Some h1 \<and>
                          DiscoverVertex vis (p @ [c]) h1 = Some h2 \<and> Inv E (insert (p @ [c]) A) h2"
  shows "Inv (A - set Q) A h \<Longrightarrow> bfs_queue_ok T Q A disc \<Longrightarrow>
         \<exists>h'. bfs_loop vis Q disc h = Some h' \<and> Inv T T h'"
proof (induction "2 * card (T - A) + length Q" arbitrary: A Q disc h rule: less_induct)
  case less
  note inv = less.prems(1) and ok = less.prems(2)
  show ?case
  proof (cases Q)
    case Nil
    have "A = T" using ok unfolding Nil bfs_queue_ok_def by auto
    then have "Inv T T h" using inv Nil by simp
    then show ?thesis using Nil by (subst bfs_loop.simps) simp
  next
    case (Cons p Q')
    have ok': "bfs_queue_ok T (p # Q') A disc" using ok Cons by simp
    have pA: "p \<in> A" and AT: "A \<subseteq> T" and dA: "disc \<subseteq> A" and pQ: "p \<notin> set Q'"
      using ok' unfolding bfs_queue_ok_def by auto
    have pT: "p \<in> T" using pA AT by auto
    let ?E = "A - set Q"
    have low: "\<forall>r \<in> T. length r \<le> length p \<longrightarrow> r \<in> A"
      using bfs_queue_lower[OF ok'] by blast
    have pE: "p \<notin> ?E" using Cons by simp
    obtain h1 where h1: "ExamineVertex vis p h = Some h1" "Inv (insert p ?E) A h1"
      using vstep[OF inv pA pE low] by blast
    have sh1: "trie_shape T h1" by (rule shape[OF h1(2)])
    obtain es where es: "OutgoingEdges h1 p = Some es" "distinct (map edge_target es)"
        "\<forall>e \<in> set es. e = \<lparr>edge_source = p, edge_target = p @ [edge_character e],
                                 edge_character = edge_character e\<rparr> \<and> p @ [edge_character e] \<in> T"
        "set (map edge_target es) = {q \<in> T. \<exists>c. q = p @ [c]}"
      using OutgoingEdges_shape[OF sh1 pT] by blast
    let ?cs = "map edge_target es"
    have new: "set ?cs \<inter> A = {}" by (rule bfs_queue_children_new[OF ok' es(4)])
    have newD: "set ?cs \<inter> insert p disc = {}" using new dA pA by auto
    have estep': "\<And>A' h c. Inv (insert p ?E) A' h \<Longrightarrow> A \<subseteq> A' \<Longrightarrow> p @ [c] \<in> T \<Longrightarrow> p @ [c] \<notin> A' \<Longrightarrow>
            \<exists>h1 h2. ExamineEdge vis \<lparr>edge_source = p, edge_target = p @ [c], edge_character = c\<rparr> h = Some h1 \<and>
                    DiscoverVertex vis (p @ [c]) h1 = Some h2 \<and> Inv (insert p ?E) (insert (p @ [c]) A') h2"
    proof -
      fix A' h c
      assume a: "Inv (insert p ?E) A' h" "A \<subseteq> A'" "p @ [c] \<in> T" "p @ [c] \<notin> A'"
      have low': "\<forall>r \<in> T. length r \<le> length p \<longrightarrow> r \<in> A'" using low a(2) by blast
      show "\<exists>h1 h2. ExamineEdge vis \<lparr>edge_source = p, edge_target = p @ [c], edge_character = c\<rparr> h = Some h1 \<and>
                    DiscoverVertex vis (p @ [c]) h1 = Some h2 \<and> Inv (insert p ?E) (insert (p @ [c]) A') h2"
        by (rule estep[OF a(1) insertI1 low' a(3,4)])
    qed
    obtain h2 where h2: "bfs_edges vis es (insert p disc) Q' h1 = Some (Q' @ ?cs, h2)"
        "Inv (insert p ?E) (A \<union> set ?cs) h2"
      using bfs_edges_tree[of "Inv (insert p ?E)" A p T vis A h1 es "insert p disc" Q',
                OF estep' h1(2) subset_refl es(3) es(2) new newD]
      by blast
    have ok2: "bfs_queue_ok T (Q' @ ?cs) (A \<union> set ?cs) (insert p disc)"
      by (rule bfs_queue_step[OF ok' pc es(2) es(4)])
    have QA: "set Q' \<subseteq> A" using ok' unfolding bfs_queue_ok_def by auto
    have Eeq: "(A \<union> set ?cs) - set (Q' @ ?cs) = insert p ?E"
      using new pA pQ Cons by auto
    have inv2: "Inv ((A \<union> set ?cs) - set (Q' @ ?cs)) (A \<union> set ?cs) h2"
      unfolding Eeq by (rule h2(2))
    have csT: "set ?cs \<subseteq> T - A" using es(4) new by auto
    have "T - (A \<union> set ?cs) = (T - A) - set ?cs" by auto
    then have "card (T - (A \<union> set ?cs)) = card (T - A) - card (set ?cs)"
      using card_Diff_subset[OF finite_set csT] by simp
    moreover have "card (set ?cs) = length es" using es(2) distinct_card[of ?cs] by simp
    moreover have "card (set ?cs) \<le> card (T - A)" using csT fin by (simp add: card_mono)
    ultimately have meas: "2 * card (T - (A \<union> set ?cs)) + length (Q' @ ?cs) < 2 * card (T - A) + length Q"
      using Cons by simp
    obtain h' where h': "bfs_loop vis (Q' @ ?cs) (insert p disc) h2 = Some h'" "Inv T T h'"
      using less.hyps[OF meas inv2 ok2] by blast
    have "bfs_loop vis Q disc h = bfs_loop vis (Q' @ ?cs) (insert p disc) h2"
      using Cons h1(1) es(1) h2(1) by (subst bfs_loop.simps) simp
    then show ?thesis using h' by simp
  qed
qed

lemma BreadthFirstSearch_tree:
  assumes fin: "finite T" and pc: "prefix_closed T" and root: "[] \<in> T"
    and shape: "\<And>E A h. Inv E A h \<Longrightarrow> trie_shape T h"
    and vstep: "\<And>E A h p. Inv E A h \<Longrightarrow> p \<in> A \<Longrightarrow> p \<notin> E \<Longrightarrow>
                  (\<forall>r \<in> T. length r \<le> length p \<longrightarrow> r \<in> A) \<Longrightarrow>
                  \<exists>h1. ExamineVertex vis p h = Some h1 \<and> Inv (insert p E) A h1"
    and estep: "\<And>E A h p c. Inv E A h \<Longrightarrow> p \<in> E \<Longrightarrow>
                  (\<forall>r \<in> T. length r \<le> length p \<longrightarrow> r \<in> A) \<Longrightarrow> p @ [c] \<in> T \<Longrightarrow> p @ [c] \<notin> A \<Longrightarrow>
                  \<exists>h1 h2. ExamineEdge vis \<lparr>edge_source = p, edge_target = p @ [c], edge_character = c\<rparr> h = Some h1 \<and>
                          DiscoverVertex vis (p @ [c]) h1 = Some h2 \<and> Inv E (insert (p @ [c]) A) h2"
    and init: "DiscoverVertex vis [] h = Some h0" "Inv {} {[]} h0"
  shows "\<exists>h'. BreadthFirstSearch [] vis h = Some h' \<and> Inv T T h'"
proof -
  have ok: "bfs_queue_ok T [[]] {[]} {[]}"
    unfolding bfs_queue_ok_def using root by (auto simp: strict_prefix_def)
  have inv: "Inv ({[]} - set [[]]) {[]} h0" using init(2) by simp
  have "\<exists>h'. bfs_loop vis [[]] {[]} h0 = Some h' \<and> Inv T T h'"
    apply (rule bfs_loop_tree[where T = T and Inv = Inv and A = "{[]}" and Q = "[[]]"])
          apply (rule fin)
         apply (rule pc)
        apply (erule shape)
       apply (erule (3) vstep)
      apply (erule (4) estep)
     apply (rule inv)
    apply (rule ok)
    done
  then obtain h' where "bfs_loop vis [[]] {[]} h0 = Some h'" "Inv T T h'" by blast
  then show ?thesis using init(1) by (simp add: BreadthFirstSearch_def)
qed

section \<open>The automaton transition and its cache\<close>

lemma set_cache_eq:
  "h p = Some n \<Longrightarrow> set_cache h p c v =
     Some (h(p \<mapsto> n\<lparr>automaton_transitions_cache := (automaton_transitions_cache n)(c \<mapsto> v)\<rparr>))"
  by (simp add: set_cache_def)

lemma cache_ext_refl: "cache_ext T h h"
  by (simp add: cache_ext_def)

lemma cache_ext_trans:
  assumes "cache_ext T h1 h2" "cache_ext T h2 h3"
  shows "cache_ext T h1 h3"
  unfolding cache_ext_def
proof (intro allI conjI impI)
  fix p assume "h1 p = None"
  then have "h2 p = None" using assms(1) unfolding cache_ext_def by blast
  then show "h3 p = None" using assms(2) unfolding cache_ext_def by blast
next
  fix p n assume n: "h1 p = Some n"
  obtain n2 where n2: "h2 p = Some n2" "trie_transitions n2 = trie_transitions n"
     "terminated_string_ids n2 = terminated_string_ids n" "suffix_link n2 = suffix_link n"
     "terminal_link n2 = terminal_link n"
     "\<forall>c v. automaton_transitions_cache n2 c = Some v \<longrightarrow>
                   automaton_transitions_cache n c = Some v \<or> v = Some (longest_suffix_in T (p @ [c]))"
    using assms(1) n unfolding cache_ext_def by blast
  obtain n3 where n3: "h3 p = Some n3" "trie_transitions n3 = trie_transitions n2"
     "terminated_string_ids n3 = terminated_string_ids n2" "suffix_link n3 = suffix_link n2"
     "terminal_link n3 = terminal_link n2"
     "\<forall>c v. automaton_transitions_cache n3 c = Some v \<longrightarrow>
                   automaton_transitions_cache n2 c = Some v \<or> v = Some (longest_suffix_in T (p @ [c]))"
    using assms(2) n2(1) unfolding cache_ext_def by blast
  have "\<forall>c v. automaton_transitions_cache n3 c = Some v \<longrightarrow>
                   automaton_transitions_cache n c = Some v \<or> v = Some (longest_suffix_in T (p @ [c]))"
    using n2(6) n3(6) by blast
  then show "\<exists>n'. h3 p = Some n' \<and> trie_transitions n' = trie_transitions n \<and>
                terminated_string_ids n' = terminated_string_ids n \<and>
                suffix_link n' = suffix_link n \<and> terminal_link n' = terminal_link n \<and>
                (\<forall>c v. automaton_transitions_cache n' c = Some v \<longrightarrow>
                   automaton_transitions_cache n c = Some v \<or>
                   v = Some (longest_suffix_in T (p @ [c])))"
    using n2 n3 by simp
qed

lemma cache_ext_set:
  assumes "h p = Some n"
  shows "cache_ext T h (h(p \<mapsto> n\<lparr>automaton_transitions_cache :=
            (automaton_transitions_cache n)(c \<mapsto> Some (longest_suffix_in T (p @ [c])))\<rparr>))"
  unfolding cache_ext_def using assms by auto

lemma cache_ext_placeholder:
  assumes n: "h p = Some n"
    and ext: "cache_ext T (h(p \<mapsto> n\<lparr>automaton_transitions_cache := (automaton_transitions_cache n)(c \<mapsto> None)\<rparr>)) h2"
    and n2: "h2 p = Some n2"
  shows "cache_ext T h (h2(p \<mapsto> n2\<lparr>automaton_transitions_cache :=
            (automaton_transitions_cache n2)(c \<mapsto> Some (longest_suffix_in T (p @ [c])))\<rparr>))"
  unfolding cache_ext_def
proof (intro allI conjI impI)
  fix q assume "h q = None"
  then have "q \<noteq> p" using n by auto
  then show "(h2(p \<mapsto> n2\<lparr>automaton_transitions_cache :=
            (automaton_transitions_cache n2)(c \<mapsto> Some (longest_suffix_in T (p @ [c])))\<rparr>)) q = None"
    using ext \<open>h q = None\<close> unfolding cache_ext_def by (metis fun_upd_other)
next
  fix q m assume m: "h q = Some m"
  let ?h1 = "h(p \<mapsto> n\<lparr>automaton_transitions_cache := (automaton_transitions_cache n)(c \<mapsto> None)\<rparr>)"
  let ?h3 = "h2(p \<mapsto> n2\<lparr>automaton_transitions_cache :=
            (automaton_transitions_cache n2)(c \<mapsto> Some (longest_suffix_in T (p @ [c])))\<rparr>)"
  show "\<exists>n'. ?h3 q = Some n' \<and> trie_transitions n' = trie_transitions m \<and>
                terminated_string_ids n' = terminated_string_ids m \<and>
                suffix_link n' = suffix_link m \<and> terminal_link n' = terminal_link m \<and>
                (\<forall>c v. automaton_transitions_cache n' c = Some v \<longrightarrow>
                   automaton_transitions_cache m c = Some v \<or>
                   v = Some (longest_suffix_in T (q @ [c])))"
  proof (cases "q = p")
    case True
    have "?h1 p = Some (n\<lparr>automaton_transitions_cache := (automaton_transitions_cache n)(c \<mapsto> None)\<rparr>)"
      by simp
    then obtain k where k: "h2 p = Some k"
       "trie_transitions k = trie_transitions n" "terminated_string_ids k = terminated_string_ids n"
       "suffix_link k = suffix_link n" "terminal_link k = terminal_link n"
       "\<forall>d v. automaton_transitions_cache k d = Some v \<longrightarrow>
            ((automaton_transitions_cache n)(c \<mapsto> None)) d = Some v \<or> v = Some (longest_suffix_in T (p @ [d]))"
      using ext unfolding cache_ext_def by fastforce
    have kn: "k = n2" using k(1) n2 by simp
    have "\<forall>d v. ((automaton_transitions_cache n2)(c \<mapsto> Some (longest_suffix_in T (p @ [c])))) d = Some v \<longrightarrow>
            automaton_transitions_cache n d = Some v \<or> v = Some (longest_suffix_in T (p @ [d]))"
      using k(6) unfolding kn by (auto split: if_splits)
    then show ?thesis using True k(2-5) m n unfolding kn by simp
  next
    case False
    then have "?h1 q = Some m" using m by simp
    then obtain k where k: "h2 q = Some k"
       "trie_transitions k = trie_transitions m \<and> terminated_string_ids k = terminated_string_ids m \<and>
       suffix_link k = suffix_link m \<and> terminal_link k = terminal_link m \<and>
       (\<forall>d v. automaton_transitions_cache k d = Some v \<longrightarrow>
            automaton_transitions_cache m d = Some v \<or> v = Some (longest_suffix_in T (q @ [d])))"
      using ext unfolding cache_ext_def by blast
    then show ?thesis using False by simp
  qed
qed

lemma node_shape_cache [simp]:
  "node_shape T p (n\<lparr>automaton_transitions_cache := x\<rparr>) = node_shape T p n"
  by (simp add: node_shape_def)

lemma node_shape_slink [simp]:
  "node_shape T p (n\<lparr>suffix_link := x\<rparr>) = node_shape T p n"
  by (simp add: node_shape_def)

lemma node_shape_tlink [simp]:
  "node_shape T p (n\<lparr>terminal_link := x\<rparr>) = node_shape T p n"
  by (simp add: node_shape_def)

lemma trie_shape_upd:
  assumes "trie_shape T h" "h p = Some n" "node_shape T p n'"
  shows "trie_shape T (h(p \<mapsto> n'))"
proof (rule trie_shapeI)
  fix q assume "q \<notin> T"
  then show "(h(p \<mapsto> n')) q = None"
    using trie_shape_notin[OF assms(1), of q] trie_shape_SomeD[OF assms(1,2)] by auto
next
  fix q assume q: "q \<in> T"
  show "\<exists>n. (h(p \<mapsto> n')) q = Some n \<and> node_shape T q n"
    using trie_shape_inD[OF assms(1) q] assms(3) by (cases "q = p") auto
qed

lemma trie_shape_cache_ext:
  assumes "trie_shape T h" "cache_ext T h h'"
  shows "trie_shape T h'"
proof (rule trie_shapeI)
  fix q assume "q \<notin> T"
  then have "h q = None" by (rule trie_shape_notin[OF assms(1)])
  then show "h' q = None" using assms(2) unfolding cache_ext_def by blast
next
  fix q assume q: "q \<in> T"
  obtain n where n: "h q = Some n" "node_shape T q n" using trie_shape_inD[OF assms(1) q] by blast
  then obtain n' where "h' q = Some n'" "trie_transitions n' = trie_transitions n"
    using assms(2) unfolding cache_ext_def by blast
  then show "\<exists>n. h' q = Some n \<and> node_shape T q n" using n(2) by (simp add: node_shape_def)
qed

lemma links_upto_placeholder:
  assumes lu: "links_upto T k h" and n: "h p = Some n" and k: "k < length p"
  shows "links_upto T k (h(p \<mapsto> n\<lparr>automaton_transitions_cache := x\<rparr>))"
proof -
  have sh: "trie_shape T h" using lu by (simp add: links_upto_def)
  have ns: "node_shape T p n" using trie_shape_SomeD[OF sh n] by simp
  have "trie_shape T (h(p \<mapsto> n\<lparr>automaton_transitions_cache := x\<rparr>))"
    by (rule trie_shape_upd[OF sh n]) (simp add: ns)
  moreover have "\<And>r m. (h(p \<mapsto> n\<lparr>automaton_transitions_cache := x\<rparr>)) r = Some m \<Longrightarrow> length r \<le> k \<Longrightarrow> h r = Some m"
    using k by (auto split: if_splits)
  ultimately show ?thesis using lu unfolding links_upto_def by blast
qed

lemma links_upto_mono: "links_upto T k h \<Longrightarrow> j \<le> k \<Longrightarrow> links_upto T j h"
  unfolding links_upto_def by (meson le_trans)

lemma GetAutomatonTransition_correct:
  assumes pc: "prefix_closed T" and root: "[] \<in> T"
  shows "links_upto T (length p) h \<Longrightarrow> p \<in> T \<Longrightarrow>
         \<exists>h'. GetAutomatonTransition h (Some p) (Some []) c =
                 Some (h', Some (longest_suffix_in T (p @ [c]))) \<and> cache_ext T h h'"
proof (induction "length p" arbitrary: p h rule: less_induct)
  case less
  note lu = less.prems(1) and pT = less.prems(2)
  have sh: "trie_shape T h" using lu by (simp add: links_upto_def)
  obtain n where n: "h p = Some n" "node_shape T p n" using trie_shape_inD[OF sh pT] by blast
  have mo: "map_of (trie_transitions n) c = (if p @ [c] \<in> T then Some (p @ [c]) else None)"
    using n(2) by (simp add: node_shape_def)
  let ?r = "longest_suffix_in T (p @ [c])"
  show ?case
  proof (cases "automaton_transitions_cache n c")
    case (Some v)
    have "v = Some ?r" using lu n(1) Some unfolding links_upto_def by blast
    then have "GetAutomatonTransition h (Some p) (Some []) c = Some (h, Some ?r)"
      using n(1) Some by (subst GetAutomatonTransition.simps) simp
    then show ?thesis using cache_ext_refl by blast
  next
    case None
    let ?n1 = "n\<lparr>automaton_transitions_cache := (automaton_transitions_cache n)(c \<mapsto> None)\<rparr>"
    let ?h1 = "h(p \<mapsto> ?n1)"
    have sc1: "set_cache h p c None = Some ?h1" using n(1) by (rule set_cache_eq[of h p n])
    have h1p: "?h1 p = Some ?n1" by simp
    show ?thesis
    proof (cases "p @ [c] \<in> T")
      case True
      have r: "?r = p @ [c]" using True by (rule lsuf_id)
      let ?h2 = "h(p \<mapsto> n\<lparr>automaton_transitions_cache := (automaton_transitions_cache n)(c \<mapsto> Some ?r)\<rparr>)"
      have "set_cache ?h1 p c (Some (p @ [c])) = Some ?h2"
        using set_cache_eq[of ?h1 p ?n1 c "Some (p @ [c])"] r by simp
      then have "GetAutomatonTransition h (Some p) (Some []) c = Some (?h2, Some ?r)"
        using n(1) None sc1 mo True r by (subst GetAutomatonTransition.simps) simp
      then show ?thesis using cache_ext_set[of h p n T c] n(1) by blast
    next
      case False
      note notin = this
      show ?thesis
      proof (cases "p = []")
        case True
        have r: "?r = []" using notin True by simp
        let ?h2 = "h(p \<mapsto> n\<lparr>automaton_transitions_cache := (automaton_transitions_cache n)(c \<mapsto> Some ?r)\<rparr>)"
        have "set_cache ?h1 p c (Some p) = Some ?h2"
          using set_cache_eq[of ?h1 p ?n1 c "Some p"] r True by simp
        then have "GetAutomatonTransition h (Some p) (Some []) c = Some (?h2, Some ?r)"
          using n(1) None sc1 mo notin r True by (subst GetAutomatonTransition.simps) simp
        then show ?thesis using cache_ext_set[of h p n T c] n(1) by blast
      next
        case False
        let ?sl = "longest_suffix_in T (tl p)"
        have sl: "suffix_link n = Some ?sl" using lu n(1) False unfolding links_upto_def by blast
        have len: "length ?sl < length p" by (rule lsuf_tl_length[OF False])
        have slT: "?sl \<in> T" by (rule lsuf_in[OF root])
        have lu1: "links_upto T (length ?sl) ?h1"
          by (rule links_upto_placeholder[OF links_upto_mono[OF lu] n(1) len]) (use len in simp)
        obtain h2 where h2:
          "GetAutomatonTransition ?h1 (Some ?sl) (Some []) c =
              Some (h2, Some (longest_suffix_in T (?sl @ [c])))"
          "cache_ext T ?h1 h2"
          using less.hyps[OF len lu1 slT] by blast
        have r: "longest_suffix_in T (?sl @ [c]) = ?r"
          using lsuf_step[OF pc, of p c] notin False by simp
        obtain n2 where n2: "h2 p = Some n2" using h2(2) h1p unfolding cache_ext_def by blast
        let ?h3 = "h2(p \<mapsto> n2\<lparr>automaton_transitions_cache := (automaton_transitions_cache n2)(c \<mapsto> Some ?r)\<rparr>)"
        have sc3: "set_cache h2 p c (Some ?r) = Some ?h3" using n2 by (rule set_cache_eq[of h2 p n2])
        have "GetAutomatonTransition h (Some p) (Some []) c = Some (?h3, Some ?r)"
          using n(1) None sc1 mo notin False sl h2(1) r sc3
          by (subst GetAutomatonTransition.simps) simp
        moreover have "cache_ext T h ?h3" using n(1) h2(2) n2 by (rule cache_ext_placeholder[of h p n T c h2 n2])
        ultimately show ?thesis by blast
      qed
    qed
  qed
qed

section \<open>Suffix links and terminal links\<close>

lemma heap_ok_SomeD: "heap_ok T F S1 S2 h \<Longrightarrow> h p = Some n \<Longrightarrow> p \<in> T \<and> node_ok T F S1 S2 p n"
  unfolding heap_ok_def by (drule spec[of _ p]) simp

lemma heap_ok_inD: "heap_ok T F S1 S2 h \<Longrightarrow> p \<in> T \<Longrightarrow> \<exists>n. h p = Some n \<and> node_ok T F S1 S2 p n"
  unfolding heap_ok_def by (drule spec[of _ p]) (cases "h p"; simp)

lemma heap_ok_notin: "heap_ok T F S1 S2 h \<Longrightarrow> p \<notin> T \<Longrightarrow> h p = None"
  unfolding heap_ok_def by (drule spec[of _ p]) (cases "h p"; simp)

lemma heap_okI:
  assumes "\<And>p. p \<notin> T \<Longrightarrow> h p = None"
     and "\<And>p. p \<in> T \<Longrightarrow> \<exists>n. h p = Some n \<and> node_ok T F S1 S2 p n"
  shows "heap_ok T F S1 S2 h"
  unfolding heap_ok_def
proof
  fix p
  show "case h p of None \<Rightarrow> p \<notin> T | Some n \<Rightarrow> p \<in> T \<and> node_ok T F S1 S2 p n"
  proof (cases "p \<in> T")
    case True
    then show ?thesis using assms(2)[of p] by auto
  next
    case False
    then show ?thesis using assms(1)[of p] by simp
  qed
qed

lemma heap_ok_shape: "heap_ok T F S1 S2 h \<Longrightarrow> trie_shape T h"
  by (rule trie_shapeI) (auto dest: heap_ok_notin heap_ok_inD simp: node_ok_def)

lemma trie_built_heap_ok: "trie_built T F h \<Longrightarrow> heap_ok T F {} {} h"
proof (rule heap_okI)
  fix p assume "trie_built T F h" "p \<notin> T"
  then show "h p = None" using trie_shape_notin[of T h p] by (simp add: trie_built_def)
next
  fix p assume tb: "trie_built T F h" and p: "p \<in> T"
  then obtain n where n: "h p = Some n" "node_shape T p n"
    using trie_shape_inD[of T h p] by (auto simp: trie_built_def)
  have "terminated_string_ids n = ids_at F p \<and> automaton_transitions_cache n = Map.empty \<and>
        suffix_link n = None \<and> terminal_link n = None"
    using tb n(1) unfolding trie_built_def by blast
  then have "node_ok T F {} {} p n" using n(2) by (simp add: node_ok_def)
  then show "\<exists>n. h p = Some n \<and> node_ok T F {} {} p n" using n(1) by blast
qed

lemma heap_ok_links_upto:
  assumes ok: "heap_ok T F S1 S2 h" and S: "\<And>r. r \<in> T \<Longrightarrow> r \<noteq> [] \<Longrightarrow> length r \<le> k \<Longrightarrow> r \<in> S1"
  shows "links_upto T k h"
  unfolding links_upto_def
proof (intro conjI allI impI)
  show "trie_shape T h" by (rule heap_ok_shape[OF ok])
next
  fix r n assume a: "h r = Some n \<and> length r \<le> k" and ne: "r \<noteq> []"
  then have "r \<in> T" "node_ok T F S1 S2 r n" using heap_ok_SomeD[OF ok, of r n] by auto
  then show "suffix_link n = Some (longest_suffix_in T (tl r))"
    using S[of r] a ne by (simp add: node_ok_def)
next
  fix r n c v assume a: "h r = Some n \<and> length r \<le> k" and "automaton_transitions_cache n c = Some v"
  then show "v = Some (longest_suffix_in T (r @ [c]))"
    using heap_ok_SomeD[OF ok, of r n] by (simp add: node_ok_def)
qed

lemma heap_ok_cache_ext:
  assumes ok: "heap_ok T F S1 S2 h" and ext: "cache_ext T h h'"
  shows "heap_ok T F S1 S2 h'"
proof (rule heap_okI)
  fix p assume "p \<notin> T"
  then have "h p = None" by (rule heap_ok_notin[OF ok])
  then show "h' p = None" using ext unfolding cache_ext_def by blast
next
  fix p assume "p \<in> T"
  then obtain n where n: "h p = Some n" "node_ok T F S1 S2 p n" using heap_ok_inD[OF ok] by blast
  obtain n' where n': "h' p = Some n'" "trie_transitions n' = trie_transitions n"
     "terminated_string_ids n' = terminated_string_ids n" "suffix_link n' = suffix_link n"
     "terminal_link n' = terminal_link n"
     "\<forall>c v. automaton_transitions_cache n' c = Some v \<longrightarrow>
                   automaton_transitions_cache n c = Some v \<or> v = Some (longest_suffix_in T (p @ [c]))"
    using ext n(1) unfolding cache_ext_def by blast
  have "\<forall>c v. automaton_transitions_cache n' c = Some v \<longrightarrow> v = Some (longest_suffix_in T (p @ [c]))"
    using n'(6) n(2) unfolding node_ok_def by blast
  then have "node_ok T F S1 S2 p n'" using n(2) n'(2-5) by (simp add: node_ok_def node_shape_def)
  then show "\<exists>n. h' p = Some n \<and> node_ok T F S1 S2 p n" using n'(1) by blast
qed

lemma heap_ok_upd:
  assumes ok: "heap_ok T F S1 S2 h" and p: "p \<in> T" and n': "node_ok T F S1' S2' p n'"
    and S1: "S1' \<subseteq> insert p S1" and S2: "S2' = S2 \<or> S2' = insert p S2"
  shows "heap_ok T F S1' S2' (h(p \<mapsto> n'))"
proof (rule heap_okI)
  fix q assume "q \<notin> T"
  then show "(h(p \<mapsto> n')) q = None" using heap_ok_notin[OF ok, of q] p by auto
next
  fix q assume q: "q \<in> T"
  show "\<exists>n. (h(p \<mapsto> n')) q = Some n \<and> node_ok T F S1' S2' q n"
  proof (cases "q = p")
    case True
    then show ?thesis using n' by simp
  next
    case False
    obtain n where n: "h q = Some n" "node_ok T F S1 S2 q n" using heap_ok_inD[OF ok q] by blast
    have "node_ok T F S1' S2' q n" using n(2) False S1 S2 unfolding node_ok_def by auto
    then show ?thesis using n(1) False by simp
  qed
qed

lemma set_suffix_link_ok:
  assumes ok: "heap_ok T F S1 S2 h" and p: "p \<in> T"
  shows "\<exists>h'. set_suffix_link h p (Some (longest_suffix_in T (tl p))) = Some h' \<and>
              heap_ok T F (insert p S1) S2 h'"
proof -
  obtain n where n: "h p = Some n" "node_ok T F S1 S2 p n" using heap_ok_inD[OF ok p] by blast
  let ?n' = "n\<lparr>suffix_link := Some (longest_suffix_in T (tl p))\<rparr>"
  have "node_ok T F (insert p S1) S2 p ?n'" using n(2) by (simp add: node_ok_def)
  then have "heap_ok T F (insert p S1) S2 (h(p \<mapsto> ?n'))"
    using heap_ok_upd[OF ok p, of "insert p S1" S2 ?n'] by simp
  then show ?thesis using n(1) by (simp add: set_suffix_link_def)
qed

lemma set_terminal_link_ok:
  assumes ok: "heap_ok T F S1 S2 h" and p: "p \<in> T"
  shows "\<exists>h'. set_terminal_link h p (tlink_spec (fst ` set F) p) = Some h' \<and>
              heap_ok T F S1 (insert p S2) h'"
proof -
  obtain n where n: "h p = Some n" "node_ok T F S1 S2 p n" using heap_ok_inD[OF ok p] by blast
  let ?n' = "n\<lparr>terminal_link := tlink_spec (fst ` set F) p\<rparr>"
  have "node_ok T F S1 (insert p S2) p ?n'" using n(2) by (simp add: node_ok_def)
  then have "heap_ok T F S1 (insert p S2) (h(p \<mapsto> ?n'))"
    using heap_ok_upd[OF ok p, of S1 "insert p S2" ?n'] by auto
  then show ?thesis using n(1) by (simp add: set_terminal_link_def)
qed

lemma suffix_vstep:
  assumes root: "[] \<in> T"
    and ok: "heap_ok T F ((A - {[]}) \<union> (E \<inter> {[]})) {} h"
  shows "\<exists>h1. ExamineVertex (SuffixLinkCalculator []) p h = Some h1 \<and>
              heap_ok T F ((A - {[]}) \<union> (insert p E \<inter> {[]})) {} h1"
proof (cases "p = []")
  case True
  obtain h1 where h1: "set_suffix_link h [] (Some (longest_suffix_in T (tl []))) = Some h1"
      "heap_ok T F (insert [] ((A - {[]}) \<union> (E \<inter> {[]}))) {} h1"
    using set_suffix_link_ok[OF ok root] by blast
  have "(A - {[]}) \<union> (insert p E \<inter> {[]}) = insert [] ((A - {[]}) \<union> (E \<inter> {[]}))"
    using True by auto
  then show ?thesis using h1 True
    by (simp add: SuffixLinkCalculator_def SuffixLink_ExamineVertex_def)
next
  case False
  then have "(A - {[]}) \<union> (insert p E \<inter> {[]}) = (A - {[]}) \<union> (E \<inter> {[]})" by auto
  then show ?thesis using ok False
    by (simp add: SuffixLinkCalculator_def SuffixLink_ExamineVertex_def)
qed

lemma suffix_estep:
  assumes pc: "prefix_closed T" and root: "[] \<in> T"
    and ok: "heap_ok T F ((A - {[]}) \<union> (E \<inter> {[]})) {} h"
    and pE: "p \<in> E" and low: "\<forall>r \<in> T. length r \<le> length p \<longrightarrow> r \<in> A"
    and ch: "p @ [c] \<in> T"
  shows "\<exists>h1 h2. ExamineEdge (SuffixLinkCalculator [])
                    \<lparr>edge_source = p, edge_target = p @ [c], edge_character = c\<rparr> h = Some h1 \<and>
                 DiscoverVertex (SuffixLinkCalculator []) (p @ [c]) h1 = Some h2 \<and>
                 heap_ok T F ((insert (p @ [c]) A - {[]}) \<union> (E \<inter> {[]})) {} h2"
proof -
  let ?S = "(A - {[]}) \<union> (E \<inter> {[]})"
  let ?ch = "p @ [c]"
  have Seq: "(insert ?ch A - {[]}) \<union> (E \<inter> {[]}) = insert ?ch ?S" by auto
  have pT: "p \<in> T" using ch pc unfolding prefix_closed_def by blast
  have pA: "p \<in> A" using low pT by simp
  have pS: "p \<in> ?S" using pA pE by auto
  obtain pn where pn: "h p = Some pn" "node_ok T F ?S {} p pn" using heap_ok_inD[OF ok pT] by blast
  let ?sl = "longest_suffix_in T (tl p)"
  have sl: "suffix_link pn = Some ?sl" using pn(2) pS unfolding node_ok_def by blast
  have dv: "\<And>x. DiscoverVertex (SuffixLinkCalculator []) ?ch x = Some x"
    by (simp add: SuffixLinkCalculator_def)
  show ?thesis
  proof (cases "p = []")
    case True
    have "longest_suffix_in T (tl ?ch) = p" using True by simp
    then obtain h1 where h1: "set_suffix_link h ?ch (Some p) = Some h1" "heap_ok T F (insert ?ch ?S) {} h1"
      using set_suffix_link_ok[OF ok ch] by auto
    have "ExamineEdge (SuffixLinkCalculator [])
            \<lparr>edge_source = p, edge_target = ?ch, edge_character = c\<rparr> h = Some h1"
      using pn(1) sl True h1(1) by (simp add: SuffixLinkCalculator_def SuffixLink_ExamineEdge_def)
    then show ?thesis using h1(2) dv unfolding Seq by blast
  next
    case False
    have len: "length ?sl < length p" by (rule lsuf_tl_length[OF False])
    then have ne: "?sl \<noteq> p" by auto
    have slT: "?sl \<in> T" by (rule lsuf_in[OF root])
    have lu: "links_upto T (length ?sl) h"
    proof (rule heap_ok_links_upto[OF ok])
      fix r assume "r \<in> T" "r \<noteq> []" "length r \<le> length ?sl"
      then show "r \<in> ?S" using low len by auto
    qed
    obtain h1 where h1: "GetAutomatonTransition h (Some ?sl) (Some []) c =
                 Some (h1, Some (longest_suffix_in T (?sl @ [c])))" "cache_ext T h h1"
      using GetAutomatonTransition_correct[OF pc root lu slT] by blast
    have ok1: "heap_ok T F ?S {} h1" by (rule heap_ok_cache_ext[OF ok h1(2)])
    have "longest_suffix_in T (tl ?ch) = longest_suffix_in T (?sl @ [c])"
      by (rule lsuf_tl_snoc[OF pc False])
    then obtain h2 where h2: "set_suffix_link h1 ?ch (Some (longest_suffix_in T (?sl @ [c]))) = Some h2"
        "heap_ok T F (insert ?ch ?S) {} h2"
      using set_suffix_link_ok[OF ok1 ch] by auto
    have "ExamineEdge (SuffixLinkCalculator [])
            \<lparr>edge_source = p, edge_target = ?ch, edge_character = c\<rparr> h = Some h2"
      using pn(1) sl ne h1(1) h2(1) by (simp add: SuffixLinkCalculator_def SuffixLink_ExamineEdge_def)
    then show ?thesis using h2(2) dv unfolding Seq by blast
  qed
qed

lemma BuildSuffixLinks_ok:
  assumes fin: "finite T" and pc: "prefix_closed T" and root: "[] \<in> T"
    and tb: "trie_built T F h"
  shows "\<exists>h'. BuildSuffixLinks h = Some h' \<and> heap_ok T F T {} h'"
proof -
  let ?Inv = "\<lambda>E A h. heap_ok T F ((A - {[]}) \<union> (E \<inter> {[]})) {} h"
  have init: "?Inv {} {[]} h" using trie_built_heap_ok[OF tb] by simp
  have "\<exists>h'. BreadthFirstSearch [] (SuffixLinkCalculator []) h = Some h' \<and> ?Inv T T h'"
    apply (rule BreadthFirstSearch_tree[where T = T and Inv = ?Inv and h0 = h])
           apply (rule fin)
          apply (rule pc)
         apply (rule root)
        apply (erule heap_ok_shape)
       apply (erule suffix_vstep[OF root])
      apply (erule (3) suffix_estep[OF pc root])
     apply (simp add: SuffixLinkCalculator_def)
    apply (rule init)
    done
  moreover have "(T - {[]}) \<union> (T \<inter> {[]}) = T" by auto
  ultimately show ?thesis by (simp add: BuildSuffixLinks_def root_addr_def)
qed

lemma heap_ok_root_tlink:
  assumes ok: "heap_ok T F S1 S2 h"
  shows "heap_ok T F S1 (insert [] S2) h"
proof (rule heap_okI)
  fix p assume "p \<notin> T" then show "h p = None" by (rule heap_ok_notin[OF ok])
next
  fix p assume "p \<in> T"
  then obtain n where n: "h p = Some n" "node_ok T F S1 S2 p n" using heap_ok_inD[OF ok] by blast
  have "node_ok T F S1 (insert [] S2) p n" using n(2) by (auto simp: node_ok_def tlink_spec_def)
  then show "\<exists>n. h p = Some n \<and> node_ok T F S1 (insert [] S2) p n" using n(1) by blast
qed

lemma terminal_estep:
  assumes pc: "prefix_closed T" and root: "[] \<in> T" and FT: "fst ` set F \<subseteq> T"
    and ok: "heap_ok T F T A h"
    and low: "\<forall>r \<in> T. length r \<le> length p \<longrightarrow> r \<in> A"
    and ch: "p @ [c] \<in> T"
  shows "\<exists>h1 h2. ExamineEdge (TerminalLinkCalculator [])
                    \<lparr>edge_source = p, edge_target = p @ [c], edge_character = c\<rparr> h = Some h1 \<and>
                 DiscoverVertex (TerminalLinkCalculator []) (p @ [c]) h1 = Some h2 \<and>
                 heap_ok T F T (insert (p @ [c]) A) h2"
proof -
  let ?ch = "p @ [c]"
  let ?W = "fst ` set F"
  obtain n where n: "h ?ch = Some n" "node_ok T F T A ?ch n" using heap_ok_inD[OF ok ch] by blast
  let ?sl = "longest_suffix_in T (tl ?ch)"
  have sl: "suffix_link n = Some ?sl" using n(2) ch unfolding node_ok_def by blast
  have len: "length ?sl < length ?ch" by (rule lsuf_tl_length) simp
  then have ne: "?ch \<noteq> ?sl" by auto
  have slT: "?sl \<in> T" by (rule lsuf_in[OF root])
  have slA: "?sl \<in> A" using low slT len by simp
  obtain sn where sn: "h ?sl = Some sn" "node_ok T F T A ?sl sn" using heap_ok_inD[OF ok slT] by blast
  have ids: "terminated_string_ids sn \<noteq> [] \<longleftrightarrow> ?sl \<in> ?W"
    using sn(2) ids_at_nonempty[of F ?sl] by (simp add: node_ok_def)
  have tl: "terminal_link sn = tlink_spec ?W ?sl" using sn(2) slA by (simp add: node_ok_def)
  have spec: "tlink_spec ?W ?ch = (if ?sl \<in> ?W then Some ?sl else tlink_spec ?W ?sl)"
    using lterm_lsuf[OF FT, of "tl ?ch"] by (simp add: tlink_spec_def Let_def)
  obtain h2 where h2: "set_terminal_link h ?ch (tlink_spec ?W ?ch) = Some h2"
      "heap_ok T F T (insert ?ch A) h2"
    using set_terminal_link_ok[OF ok ch] by blast
  have "TerminalLink_DiscoverVertex [] ?ch h = Some h2"
    using n(1) sl ne sn(1) ids tl spec h2(1)
    by (cases "?sl \<in> ?W") (simp_all add: TerminalLink_DiscoverVertex_def Let_def)
  then show ?thesis using h2(2) by (simp add: TerminalLinkCalculator_def)
qed

lemma BuildTerminalLinks_ok:
  assumes fin: "finite T" and pc: "prefix_closed T" and root: "[] \<in> T" and FT: "fst ` set F \<subseteq> T"
    and ok: "heap_ok T F T {} h"
  shows "\<exists>h'. BuildTerminalLinks h = Some h' \<and> heap_ok T F T T h'"
proof -
  let ?Inv = "\<lambda>(E::addr set) A h. heap_ok T F T A h"
  have init: "?Inv {} {[]} h" using heap_ok_root_tlink[OF ok] by simp
  obtain n where n: "h [] = Some n" "node_ok T F T {} [] n" using heap_ok_inD[OF ok root] by blast
  have "suffix_link n = Some []" using n(2) root by (simp add: node_ok_def)
  then have dv: "DiscoverVertex (TerminalLinkCalculator []) [] h = Some h"
    using n(1) by (simp add: TerminalLinkCalculator_def TerminalLink_DiscoverVertex_def)
  have "\<exists>h'. BreadthFirstSearch [] (TerminalLinkCalculator []) h = Some h' \<and> ?Inv T T h'"
    apply (rule BreadthFirstSearch_tree[where T = T and Inv = ?Inv and h0 = h])
           apply (rule fin)
          apply (rule pc)
         apply (rule root)
        apply (erule heap_ok_shape)
       apply (simp add: TerminalLinkCalculator_def)
      apply (erule (2) terminal_estep[OF pc root FT])
     apply (rule dv)
    apply (rule init)
    done
  then show ?thesis by (simp add: BuildTerminalLinks_def root_addr_def)
qed

lemma Build_ok:
  assumes "length (words_b b) \<le> length (ids_b b)"
  shows "\<exists>h. Build b = Some h \<and> automaton_ok (zip (words_b b) (ids_b b)) h"
proof -
  let ?F = "zip (words_b b) (ids_b b)"
  let ?T = "trie_nodes (words_b b)"
  have m: "map fst ?F = words_b b" using assms by (simp add: map_fst_zip_take)
  obtain h1 where h1: "BuildTrie (words_b b) (ids_b b) Automaton_new = Some h1" "trie_built ?T ?F h1"
    using BuildTrie_new[OF assms] by blast
  have FT: "fst ` set ?F \<subseteq> ?T" using trie_nodes_word[of _ "words_b b"] m
    by (metis image_set subsetI)
  obtain h2 where h2: "BuildSuffixLinks h1 = Some h2" "heap_ok ?T ?F ?T {} h2"
    using BuildSuffixLinks_ok[OF trie_nodes_finite trie_nodes_prefix_closed trie_nodes_Nil_in h1(2)]
    by blast
  obtain h3 where h3: "BuildTerminalLinks h2 = Some h3" "heap_ok ?T ?F ?T ?T h3"
    using BuildTerminalLinks_ok[OF trie_nodes_finite trie_nodes_prefix_closed trie_nodes_Nil_in FT h2(2)]
    by blast
  show ?thesis using h1(1) h2(1) h3 m by (simp add: Build_def automaton_ok_def)
qed

lemma Build_Some:
  assumes "Build b = Some h"
  shows "automaton_ok (zip (words_b b) (ids_b b)) h"
proof -
  obtain h1 where "BuildTrie (words_b b) (ids_b b) Automaton_new = Some h1"
    using assms by (auto simp: Build_def split: Option.bind_splits)
  then have "length (words_b b) \<le> length (ids_b b)" by (rule BuildTrie_Some_length)
  then show ?thesis using Build_ok[of b] assms by auto
qed

section \<open>The states of a built automaton\<close>

lemma automaton_ok_transition:
  assumes ok: "automaton_ok F h"
    and step: "GetAutomatonTransition h (Some node) (Some root_addr) c = Some (h', r)"
  shows "node \<in> trie_nodes (map fst F) \<and> r = Some (longest_suffix_in (trie_nodes (map fst F)) (node @ [c])) \<and>
         cache_ext (trie_nodes (map fst F)) h h' \<and> automaton_ok F h'"
proof -
  let ?T = "trie_nodes (map fst F)"
  have hk: "heap_ok ?T F ?T ?T h" using ok by (simp add: automaton_ok_def)
  have inT: "node \<in> ?T"
  proof (rule ccontr)
    assume "node \<notin> ?T"
    then have "h node = None" by (rule heap_ok_notin[OF hk])
    then have "GetAutomatonTransition h (Some node) (Some root_addr) c = None"
      by (subst GetAutomatonTransition.simps) simp
    then show False using step by simp
  qed
  have lu: "links_upto ?T (length node) h" by (rule heap_ok_links_upto[OF hk])
  obtain h2 where h2: "GetAutomatonTransition h (Some node) (Some []) c =
        Some (h2, Some (longest_suffix_in ?T (node @ [c])))" "cache_ext ?T h h2"
    using GetAutomatonTransition_correct[OF trie_nodes_prefix_closed trie_nodes_Nil_in lu inT] by blast
  have eq: "h' = h2" "r = Some (longest_suffix_in ?T (node @ [c]))"
    using step h2(1) by (simp_all add: root_addr_def)
  have "heap_ok ?T F ?T ?T h2" by (rule heap_ok_cache_ext[OF hk h2(2)])
  then show ?thesis using inT eq h2(2) by (simp add: automaton_ok_def)
qed

lemma automaton_reachable_ok:
  "automaton_reachable b h \<Longrightarrow> automaton_ok (zip (words_b b) (ids_b b)) h"
proof (induction rule: automaton_reachable.induct)
  case (built h)
  then show ?case by (rule Build_Some)
next
  case (transition h node c h' r)
  then show ?case using automaton_ok_transition by blast
qed

lemma automaton_ok_total:
  assumes ok: "automaton_ok F h" and n: "h node = Some n"
  shows "\<exists>h'. GetAutomatonTransition h (Some node) (Some root_addr) c =
           Some (h', Some (longest_suffix_in (trie_nodes (map fst F)) (node @ [c]))) \<and>
           cache_ext (trie_nodes (map fst F)) h h'"
proof -
  let ?T = "trie_nodes (map fst F)"
  have hk: "heap_ok ?T F ?T ?T h" using ok by (simp add: automaton_ok_def)
  have inT: "node \<in> ?T" using heap_ok_SomeD[OF hk n] by simp
  have lu: "links_upto ?T (length node) h" by (rule heap_ok_links_upto[OF hk])
  show ?thesis
    using GetAutomatonTransition_correct[OF trie_nodes_prefix_closed trie_nodes_Nil_in lu inT]
    by (simp add: root_addr_def)
qed

lemma example_reachable:
  "\<exists>h n. automaton_reachable \<lparr>words_b = [''a''], ids_b = [1]\<rparr> h \<and> h root_addr = Some n"
proof -
  let ?b = "\<lparr>words_b = [''a''], ids_b = [1]\<rparr>"
  obtain h where h: "Build ?b = Some h" "automaton_ok (zip (words_b ?b) (ids_b ?b)) h"
    using Build_ok[of ?b] by auto
  have "heap_ok (trie_nodes [''a'']) [(''a'', 1)] (trie_nodes [''a'']) (trie_nodes [''a'']) h"
    using h(2) by (simp add: automaton_ok_def)
  then obtain n where "h [] = Some n" using heap_ok_inD[OF _ trie_nodes_Nil_in] by blast
  then show ?thesis using automaton_reachable.built[OF h(1)] by (auto simp: root_addr_def)
qed

text \<open>
  Claim C5. In every state of a built automaton and for every node and character,
  \<open>GetAutomatonTransition\<close> returns (it does not run forever and reads no null pointer);
  its result is the trie child for the character if there is one, the root if the node is
  the root and has no such child, and otherwise what the call for the node's suffix link
  returns, where the suffix link is a strictly shallower node; the suffix link of the root
  is the root.
\<close>

theorem GetAutomatonTransition_terminates:
  assumes reach: "automaton_reachable b h" and n: "h node = Some n"
  shows "\<exists>h' r. GetAutomatonTransition h (Some node) (Some root_addr) c = Some (h', Some r) \<and>
           (case map_of (trie_transitions n) c of
              Some child \<Rightarrow> r = child
            | None \<Rightarrow>
                if node = root_addr then r = root_addr
                else (\<exists>l h''. suffix_link n = Some l \<and> length l < length node \<and>
                        GetAutomatonTransition h (Some l) (Some root_addr) c = Some (h'', Some r))) \<and>
           (\<exists>rn. h root_addr = Some rn \<and> suffix_link rn = Some root_addr)"
proof -
  let ?F = "zip (words_b b) (ids_b b)"
  let ?T = "trie_nodes (map fst ?F)"
  have ok: "automaton_ok ?F h" by (rule automaton_reachable_ok[OF reach])
  have hk: "heap_ok ?T ?F ?T ?T h" using ok by (simp add: automaton_ok_def)
  have inT: "node \<in> ?T" and nok: "node_ok ?T ?F ?T ?T node n" using heap_ok_SomeD[OF hk n] by auto
  let ?r = "longest_suffix_in ?T (node @ [c])"
  obtain h' where h': "GetAutomatonTransition h (Some node) (Some root_addr) c = Some (h', Some ?r)"
    using automaton_ok_total[OF ok n] by blast
  have mo: "map_of (trie_transitions n) c = (if node @ [c] \<in> ?T then Some (node @ [c]) else None)"
    using nok by (simp add: node_ok_def node_shape_def)
  obtain rn where rn: "h [] = Some rn" "node_ok ?T ?F ?T ?T [] rn"
    using heap_ok_inD[OF hk trie_nodes_Nil_in] by blast
  have root: "\<exists>rn. h root_addr = Some rn \<and> suffix_link rn = Some root_addr"
    using rn trie_nodes_Nil_in[of "map fst ?F"] by (simp add: node_ok_def root_addr_def)
  have cases: "case map_of (trie_transitions n) c of
              Some child \<Rightarrow> ?r = child
            | None \<Rightarrow>
                if node = root_addr then ?r = root_addr
                else (\<exists>l h''. suffix_link n = Some l \<and> length l < length node \<and>
                        GetAutomatonTransition h (Some l) (Some root_addr) c = Some (h'', Some ?r))"
  proof (cases "node @ [c] \<in> ?T")
    case True
    then show ?thesis using mo by (simp add: lsuf_id)
  next
    case False
    note notin = this
    show ?thesis
    proof (cases "node = []")
      case True
      then show ?thesis using mo notin by (simp add: root_addr_def)
    next
      case False
      let ?l = "longest_suffix_in ?T (tl node)"
      have sl: "suffix_link n = Some ?l" using nok inT by (simp add: node_ok_def)
      have len: "length ?l < length node" by (rule lsuf_tl_length[OF False])
      have "?l \<in> ?T" by (rule lsuf_in[OF trie_nodes_Nil_in])
      then obtain ln where ln: "h ?l = Some ln" using heap_ok_inD[OF hk] by blast
      obtain h'' where h'': "GetAutomatonTransition h (Some ?l) (Some root_addr) c =
           Some (h'', Some (longest_suffix_in ?T (?l @ [c])))"
        using automaton_ok_total[OF ok ln] by blast
      have "longest_suffix_in ?T (?l @ [c]) = ?r"
        using lsuf_step[of ?T node c, OF trie_nodes_prefix_closed] notin False by simp
      then show ?thesis using mo notin False sl len h'' by (auto simp: root_addr_def)
    qed
  qed
  show ?thesis using h' cases root by blast
qed

theorem GetAutomatonTransition_terminates_witness:
  "\<exists>h n. automaton_reachable \<lparr>words_b = [''a''], ids_b = [1]\<rparr> h \<and> h root_addr = Some n \<and>
     (\<exists>h' r. GetAutomatonTransition h (Some root_addr) (Some root_addr) CHR ''b'' = Some (h', Some r))"
proof -
  obtain h n where hn: "automaton_reachable \<lparr>words_b = [''a''], ids_b = [1]\<rparr> h" "h root_addr = Some n"
    using example_reachable by blast
  show ?thesis
    using GetAutomatonTransition_terminates[OF hn, of "CHR ''b''"] hn by blast
qed

lemma for_each_id_append:
  "for_each_id f (xs @ ys) acc = for_each_id f xs acc \<bind> for_each_id f ys"
  by (induction xs arbitrary: acc) (auto split: Option.bind_split)

lemma lterm_Some: "longest_word_suffix W q = Some t \<Longrightarrow> t \<in> W \<and> suffix t q"
  by (induction q) (auto simp: suffix_Cons split: if_splits)

lemma tlink_spec_Some:
  assumes "tlink_spec W p = Some t"
  shows "t \<in> W \<and> length t < length p"
proof -
  have ne: "p \<noteq> []" and lt: "longest_word_suffix W (tl p) = Some t"
    using assms by (auto simp: tlink_spec_def split: if_splits)
  have "suffix t (tl p)" "t \<in> W" using lterm_Some[OF lt] by auto
  then show ?thesis using suffix_length_le[of t "tl p"] ne by (cases p) auto
qed

lemma count_mset_filter: "count (mset xs) a = length (filter (\<lambda>i. a = i) xs)"
  by (induction xs) auto

lemma mset_ids_of_suffixes:
  "mset (ids_of_suffixes F q) = mset (map snd (filter (\<lambda>fi. suffix (fst fi) q) F))"
proof (rule multiset_eqI)
  fix a
  have "count (mset (ids_of_suffixes F q)) a = length (filter (\<lambda>i. a = i) (ids_of_suffixes F q))"
    by (rule count_mset_filter)
  also have "\<dots> = length (filter (\<lambda>fi. suffix (fst fi) q \<and> a = snd fi) F)"
    by (rule count_ids_of_suffixes)
  also have "\<dots> = length (filter (\<lambda>i. a = i) (map snd (filter (\<lambda>fi. suffix (fst fi) q) F)))"
    by (simp add: filter_map o_def conj_commute)
  also have "\<dots> = count (mset (map snd (filter (\<lambda>fi. suffix (fst fi) q) F))) a"
    by (rule count_mset_filter[symmetric])
  finally show "count (mset (ids_of_suffixes F q)) a =
                count (mset (map snd (filter (\<lambda>fi. suffix (fst fi) q) F))) a" .
qed

lemma GenerateMatches_loop_ok:
  assumes ok: "automaton_ok F h"
  shows "p \<in> trie_nodes (map fst F) \<Longrightarrow>
         GenerateMatches_loop h f \<lparr>node_ref = Some p, root_ref = r\<rparr> acc =
           for_each_id f (ids_of_suffixes F p) acc \<and>
         (\<exists>chain. terminal_chain h p chain \<and> concat (map (ids_in h) chain) = ids_of_suffixes F p)"
proof (induction "length p" arbitrary: p acc rule: less_induct)
  case less
  let ?T = "trie_nodes (map fst F)"
  let ?W = "fst ` set F"
  have hk: "heap_ok ?T F ?T ?T h" using ok by (simp add: automaton_ok_def)
  have WT: "?W \<subseteq> ?T" using trie_nodes_word[of _ "map fst F"] by auto
  obtain n where n: "h p = Some n" "node_ok ?T F ?T ?T p n" using heap_ok_inD[OF hk less.prems] by blast
  have ids: "terminated_string_ids n = ids_at F p" using n(2) by (simp add: node_ok_def)
  have tl: "terminal_link n = tlink_spec ?W p" using n(2) less.prems by (simp add: node_ok_def)
  have idsin: "ids_in h p = ids_at F p" using n(1) ids by (simp add: ids_in_def)
  have chain: "ids_of_suffixes F p = ids_at F p @
     (case tlink_spec ?W p of None \<Rightarrow> [] | Some t \<Rightarrow> ids_of_suffixes F t)"
    using ids_of_suffixes_chain[of F p] by (simp add: tlink_spec_def)
  show ?case
  proof (cases "tlink_spec ?W p")
    case None
    have "GenerateMatches_loop h f \<lparr>node_ref = Some p, root_ref = r\<rparr> acc =
           for_each_id f (ids_at F p) acc"
      using n(1) ids tl None
      by (subst GenerateMatches_loop.simps) (simp add: TerminatedStringIds_def TerminalLink_def)
    moreover have "terminal_chain h p [p]" using n(1) tl None by (auto intro: terminal_chain.last)
    ultimately show ?thesis using chain None idsin by auto
  next
    case (Some t)
    have t: "t \<in> ?W" "length t < length p" using tlink_spec_Some[OF Some] by auto
    have tT: "t \<in> ?T" using t(1) WT by blast
    have IH: "\<And>a. GenerateMatches_loop h f \<lparr>node_ref = Some t, root_ref = r\<rparr> a =
           for_each_id f (ids_of_suffixes F t) a"
      and IHc: "\<exists>chain. terminal_chain h t chain \<and> concat (map (ids_in h) chain) = ids_of_suffixes F t"
      using less.hyps[OF t(2) tT] by auto
    have "GenerateMatches_loop h f \<lparr>node_ref = Some p, root_ref = r\<rparr> acc =
           for_each_id f (ids_at F p) acc \<bind> for_each_id f (ids_of_suffixes F t)"
      using n(1) ids tl Some IH
      by (subst GenerateMatches_loop.simps)
         (simp add: TerminatedStringIds_def TerminalLink_def cong: Option.bind_cong)
    then have 1: "GenerateMatches_loop h f \<lparr>node_ref = Some p, root_ref = r\<rparr> acc =
           for_each_id f (ids_of_suffixes F p) acc"
      using chain Some by (simp add: for_each_id_append)
    obtain ch where ch: "terminal_chain h t ch" "concat (map (ids_in h) ch) = ids_of_suffixes F t"
      using IHc by blast
    have "terminal_chain h p (p # ch)" using n(1) tl Some ch(1) by (auto intro: terminal_chain.link)
    moreover have "concat (map (ids_in h) (p # ch)) = ids_of_suffixes F p"
      using chain Some idsin ch(2) by simp
    ultimately show ?thesis using 1 by blast
  qed
qed

text \<open>What the callback is called with: the recording callback returns the list of its
  arguments, the stored identifiers after their conversion to \<open>int\<close>.\<close>

lemma size_t_to_int_small: "i < 2 ^ 31 \<Longrightarrow> size_t_to_int i = int i"
  by (simp add: size_t_to_int_def Let_def)

lemma for_each_id_record:
  "for_each_id (\<lambda>i acc. Some (acc @ [i])) ids acc = Some (acc @ map size_t_to_int ids)"
  by (induction ids arbitrary: acc) auto

lemma GenerateMatches_recorded:
  assumes reach: "automaton_reachable b h" and n: "h node = Some n"
  shows "GenerateMatches \<lparr>node_ref = Some node, root_ref = Some root_addr\<rparr> h
           (\<lambda>i acc. Some (acc @ [i])) [] =
         Some (map size_t_to_int (ids_of_suffixes (zip (words_b b) (ids_b b)) node)) \<and>
         terminated_string_ids n = ids_at (zip (words_b b) (ids_b b)) node"
proof -
  let ?F = "zip (words_b b) (ids_b b)"
  let ?T = "trie_nodes (map fst ?F)"
  have ok: "automaton_ok ?F h" by (rule automaton_reachable_ok[OF reach])
  then have hk: "heap_ok ?T ?F ?T ?T h" by (simp add: automaton_ok_def)
  have inT: "node \<in> ?T" and nok: "node_ok ?T ?F ?T ?T node n" using heap_ok_SomeD[OF hk n] by auto
  have "GenerateMatches \<lparr>node_ref = Some node, root_ref = Some root_addr\<rparr> h
           (\<lambda>i acc. Some (acc @ [i])) [] =
        for_each_id (\<lambda>i acc. Some (acc @ [i])) (ids_of_suffixes ?F node) []"
    using GenerateMatches_loop_ok[OF ok inT, of "\<lambda>i acc. Some (acc @ [i])" "Some root_addr" "[]"]
    by (simp add: GenerateMatches_def)
  then show ?thesis using nok by (simp add: for_each_id_record node_ok_def)
qed

lemma built_node:
  assumes "length (words_b b) \<le> length (ids_b b)"
    and "p \<in> trie_nodes (map fst (zip (words_b b) (ids_b b)))"
  shows "\<exists>h n. Build b = Some h \<and> automaton_reachable b h \<and> h p = Some n"
proof -
  let ?F = "zip (words_b b) (ids_b b)"
  let ?T = "trie_nodes (map fst ?F)"
  obtain h where h: "Build b = Some h" "automaton_ok ?F h" using Build_ok[OF assms(1)] by blast
  have "heap_ok ?T ?F ?T ?T h" using h(2) by (simp add: automaton_ok_def)
  then obtain n where "h p = Some n" using heap_ok_inD[OF _ assms(2)] by blast
  then show ?thesis using h(1) automaton_reachable.built[OF h(1)] by blast
qed

text \<open>
  Claim C4: \<open>GenerateMatches\<close> at a node calls the callback once with each identifier
  stored along the terminal-link chain of the node, and the identifiers delivered are those
  of the words that are suffixes of the node's path, without duplicates. The loop variable
  \<open>int id\<close> breaks this for identifiers of \<open>2 ^ 31\<close> and more. After
  \<open>Add("a", 2147483653)\<close> the node \<open>a\<close> stores the identifier 2147483653, and
  \<open>GenerateMatches\<close> there calls the callback with \<open>-2147483643\<close>, which a callback with
  a \<open>size_t\<close> parameter receives as 18446744071562067973. After \<open>Add("a", 5)\<close> and
  \<open>Add("a", 4294967301)\<close> the callback is called twice with 5, although the two
  identifiers differ.
\<close>

theorem GenerateMatches_narrows_identifiers:
  "(\<exists>h n. Build \<lparr>words_b = [''a''], ids_b = [2147483653]\<rparr> = Some h \<and> h ''a'' = Some n \<and>
      terminated_string_ids n = [2147483653] \<and>
      GenerateMatches \<lparr>node_ref = Some ''a'', root_ref = Some root_addr\<rparr> h
         (\<lambda>i acc. Some (acc @ [i])) [] = Some [- 2147483643] \<and>
      int_to_size_t (- 2147483643) = 18446744071562067973) \<and>
   (\<exists>h n. Build \<lparr>words_b = [''a'', ''a''], ids_b = [5, 4294967301]\<rparr> = Some h \<and>
      h ''a'' = Some n \<and> terminated_string_ids n = [5, 4294967301] \<and>
      distinct (ids_b \<lparr>words_b = [''a'', ''a''], ids_b = [5, 4294967301]\<rparr>) \<and>
      GenerateMatches \<lparr>node_ref = Some ''a'', root_ref = Some root_addr\<rparr> h
         (\<lambda>i acc. Some (acc @ [i])) [] = Some [5, 5])"
proof -
  let ?b1 = "\<lparr>words_b = [''a''], ids_b = [2147483653]\<rparr>"
  let ?b2 = "\<lparr>words_b = [''a'', ''a''], ids_b = [5, 4294967301]\<rparr>"
  have "''a'' \<in> trie_nodes (map fst (zip (words_b ?b1) (ids_b ?b1)))"
    by (simp add: trie_nodes_def)
  then obtain h1 n1 where 1: "automaton_reachable ?b1 h1" "h1 ''a'' = Some n1"
    and b1: "Build ?b1 = Some h1"
    using built_node[of ?b1 "''a''"] by auto
  have r1: "terminated_string_ids n1 = [2147483653] \<and>
      GenerateMatches \<lparr>node_ref = Some ''a'', root_ref = Some root_addr\<rparr> h1
         (\<lambda>i acc. Some (acc @ [i])) [] = Some [- 2147483643]"
    using GenerateMatches_recorded[OF 1] by (simp add: ids_at_def size_t_to_int_def)
  have c: "int_to_size_t (- 2147483643) = 18446744071562067973"
    by (simp add: int_to_size_t_def)
  have "''a'' \<in> trie_nodes (map fst (zip (words_b ?b2) (ids_b ?b2)))"
    by (simp add: trie_nodes_def)
  then obtain h2 n2 where 2: "automaton_reachable ?b2 h2" "h2 ''a'' = Some n2"
    and b2: "Build ?b2 = Some h2"
    using built_node[of ?b2 "''a''"] by auto
  have r2: "terminated_string_ids n2 = [5, 4294967301] \<and>
      GenerateMatches \<lparr>node_ref = Some ''a'', root_ref = Some root_addr\<rparr> h2
         (\<lambda>i acc. Some (acc @ [i])) [] = Some [5, 5]"
    using GenerateMatches_recorded[OF 2] by (simp add: ids_at_def size_t_to_int_def)
  have d: "distinct (ids_b ?b2)" by simp
  show ?thesis using b1 1(2) r1 c b2 2(2) r2 d by blast
qed

text \<open>
  With identifiers below \<open>2 ^ 31\<close> the conversion changes nothing. In every state of an
  automaton built from such identifiers, \<open>GenerateMatches\<close> at a node calls the callback
  once for each identifier stored at the nodes of the terminal-link chain that starts at
  the node and ends where the terminal link is null, in the order of the chain and of the
  stored lists, with the identifier itself. The identifiers delivered are, with
  multiplicity, those of the words that are suffixes of the node's path; they are pairwise
  distinct when the identifiers handed to the builder are.
\<close>

lemma GenerateMatches_small_identifiers:
  assumes reach: "automaton_reachable b h" and n: "h node = Some n"
    and small: "\<forall>i \<in> set (ids_b b). i < 2 ^ 31"
  shows "\<exists>chain. terminal_chain h node chain \<and>
           GenerateMatches \<lparr>node_ref = Some node, root_ref = Some root_addr\<rparr> h
               (\<lambda>i acc. Some (acc @ [i])) [] =
             Some (map int (concat (map (ids_in h) chain))) \<and>
           mset (concat (map (ids_in h) chain)) =
             mset (map snd (filter (\<lambda>fi. suffix (fst fi) node) (zip (words_b b) (ids_b b)))) \<and>
           (distinct (ids_b b) \<longrightarrow> distinct (map int (concat (map (ids_in h) chain))))"
proof -
  let ?F = "zip (words_b b) (ids_b b)"
  let ?T = "trie_nodes (map fst ?F)"
  have ok: "automaton_ok ?F h" by (rule automaton_reachable_ok[OF reach])
  then have hk: "heap_ok ?T ?F ?T ?T h" by (simp add: automaton_ok_def)
  have inT: "node \<in> ?T" using heap_ok_SomeD[OF hk n] by simp
  obtain chain where ch: "terminal_chain h node chain"
      "concat (map (ids_in h) chain) = ids_of_suffixes ?F node"
    using GenerateMatches_loop_ok[OF ok inT, of "\<lambda>i acc. Some (acc @ [i])" "Some root_addr" "[]"]
    by blast
  have ms: "mset (concat (map (ids_in h) chain)) =
             mset (map snd (filter (\<lambda>fi. suffix (fst fi) node) ?F))"
    unfolding ch(2) by (rule mset_ids_of_suffixes)
  have "set (ids_of_suffixes ?F node) \<subseteq> set (ids_b b)"
  proof -
    have "set (ids_of_suffixes ?F node) = set_mset (mset (ids_of_suffixes ?F node))" by simp
    also have "\<dots> = set (map snd (filter (\<lambda>fi. suffix (fst fi) node) ?F))"
      unfolding mset_ids_of_suffixes by simp
    also have "\<dots> \<subseteq> set (map snd ?F)" by auto
    also have "\<dots> \<subseteq> set (ids_b b)" by (auto dest: set_zip_rightD)
    finally show ?thesis .
  qed
  then have "\<forall>i \<in> set (ids_of_suffixes ?F node). size_t_to_int i = int i"
    using small size_t_to_int_small by blast
  then have conv: "map size_t_to_int (ids_of_suffixes ?F node) = map int (ids_of_suffixes ?F node)"
    by simp
  have gm: "GenerateMatches \<lparr>node_ref = Some node, root_ref = Some root_addr\<rparr> h
               (\<lambda>i acc. Some (acc @ [i])) [] =
             Some (map int (concat (map (ids_in h) chain)))"
    using GenerateMatches_recorded[OF reach n] conv ch(2) by simp
  have "distinct (map int (concat (map (ids_in h) chain)))" if d: "distinct (ids_b b)"
  proof -
    have "distinct (map snd ?F)" using d by (simp add: map_snd_zip_take)
    then have "distinct (map snd (filter (\<lambda>fi. suffix (fst fi) node) ?F))"
      by (rule distinct_map_filter)
    then have "distinct (concat (map (ids_in h) chain))"
      using ms by (metis mset_eq_imp_distinct_iff)
    then show ?thesis by (simp add: distinct_map inj_on_def)
  qed
  then show ?thesis using ch(1) gm ms by blast
qed

lemma GenerateMatches_small_identifiers_example:
  "\<exists>h n chain. automaton_reachable \<lparr>words_b = [''a'', ''ba''], ids_b = [1, 2]\<rparr> h \<and>
     h ''ba'' = Some n \<and>
     (\<forall>i \<in> set (ids_b \<lparr>words_b = [''a'', ''ba''], ids_b = [1, 2]\<rparr>). i < 2 ^ 31) \<and>
     terminal_chain h ''ba'' chain \<and>
     GenerateMatches \<lparr>node_ref = Some ''ba'', root_ref = Some root_addr\<rparr> h
         (\<lambda>i acc. Some (acc @ [i])) [] =
       Some (map int (concat (map (ids_in h) chain))) \<and>
     GenerateMatches \<lparr>node_ref = Some ''ba'', root_ref = Some root_addr\<rparr> h
         (\<lambda>i acc. Some (acc @ [i])) [] = Some [2, 1] \<and>
     distinct (ids_b \<lparr>words_b = [''a'', ''ba''], ids_b = [1, 2]\<rparr>) \<and>
     distinct (map int (concat (map (ids_in h) chain)))"
proof -
  let ?b = "\<lparr>words_b = [''a'', ''ba''], ids_b = [1, 2]\<rparr>"
  have "''ba'' \<in> trie_nodes (map fst (zip (words_b ?b) (ids_b ?b)))"
    by (simp add: trie_nodes_def)
  then obtain h n where hn: "automaton_reachable ?b h" "h ''ba'' = Some n"
    using built_node[of ?b "''ba''"] by auto
  have s: "\<forall>i \<in> set (ids_b ?b). i < 2 ^ 31" by simp
  have d: "distinct (ids_b ?b)" by simp
  have r: "GenerateMatches \<lparr>node_ref = Some ''ba'', root_ref = Some root_addr\<rparr> h
         (\<lambda>i acc. Some (acc @ [i])) [] = Some [2, 1]"
    using GenerateMatches_recorded[OF hn] by (simp add: ids_at_def size_t_to_int_def)
  show ?thesis
    using GenerateMatches_small_identifiers[OF hn s] hn s d r by blast
qed

section \<open>The wildcard matcher\<close>

lemma BuildFor_loop_zip:
  "length (words_b b) = length (ids_b b) \<Longrightarrow>
   zip (words_b (BuildFor_loop ws sid b)) (ids_b (BuildFor_loop ws sid b)) =
     zip (words_b b) (ids_b b) @ with_ids ws sid"
  by (induction ws arbitrary: sid b) (auto simp: Add_def)

lemma with_ids_Split_loop:
  "with_ids (Split_loop (\<lambda>x. x = w) s [cur]) sid = frags_from w s (sid + length cur) cur"
proof (induction s arbitrary: cur sid)
  case Nil
  show ?case by simp
next
  case (Cons c cs)
  show ?case
    using Cons.IH[of "[]" "sid + length cur + 1"] Cons.IH[of "cur @ [c]" sid]
    by (simp add: Split_loop_Cons del: Split_loop.simps(2))
qed

lemma fragments_eq: "fragments pattern w = frags_from w pattern 0 []"
  using BuildFor_loop_zip[of AutomatonBuilder_new "Split pattern (\<lambda>x. x = w)" 0]
    with_ids_Split_loop[of w pattern "[]" 0]
  by (simp add: fragments_def BuildFor_builder_def AutomatonBuilder_new_def Split_def)

lemma frags_from_bounds:
  "length cur \<le> pos \<Longrightarrow> fi \<in> set (frags_from w s pos cur) \<Longrightarrow>
   snd fi \<le> pos + length s \<and> length (fst fi) + (pos - length cur) \<le> snd fi"
proof (induction s arbitrary: pos cur)
  case Nil
  then show ?case by auto
next
  case (Cons c cs)
  show ?case
  proof (cases "c = w")
    case True
    then have "fi = (cur, pos) \<or> fi \<in> set (frags_from w cs (pos + 1) [])" using Cons.prems(2) by simp
    then show ?thesis
    proof
      assume "fi = (cur, pos)" then show ?thesis using Cons.prems(1) by simp
    next
      assume "fi \<in> set (frags_from w cs (pos + 1) [])"
      then show ?thesis using Cons.IH[of "[]" "pos + 1"] by fastforce
    qed
  next
    case False
    then have "fi \<in> set (frags_from w cs (pos + 1) (cur @ [c]))" using Cons.prems(2) by simp
    then show ?thesis using Cons.IH[of "cur @ [c]" "pos + 1"] Cons.prems(1) by simp
  qed
qed

lemma frags_from_first:
  "length cur \<le> pos \<Longrightarrow> \<exists>f. (f, length f + (pos - length cur)) \<in> set (frags_from w s pos cur)"
proof (induction s arbitrary: pos cur)
  case Nil
  then show ?case by simp
next
  case (Cons c cs)
  show ?case
  proof (cases "c = w")
    case True
    then show ?thesis using Cons.prems by auto
  next
    case False
    then show ?thesis using Cons.IH[of "cur @ [c]" "pos + 1"] Cons.prems by simp
  qed
qed

lemma frags_from_match:
  "length cur \<le> pos \<Longrightarrow> pos + length s \<le> length X \<Longrightarrow>
   (\<forall>fi \<in> set (frags_from w s pos cur). suffix (fst fi) (take (snd fi) X)) \<longleftrightarrow>
   suffix cur (take pos X) \<and> list_all2 (\<lambda>p t. p = w \<or> p = t) s (take (length s) (drop pos X))"
proof (induction s arbitrary: pos cur)
  case Nil
  then show ?case by simp
next
  case (Cons c cs)
  have pos: "pos < length X" using Cons.prems(2) by simp
  have dr: "take (length (c # cs)) (drop pos X) = X ! pos # take (length cs) (drop (pos + 1) X)"
    using pos by (simp add: Cons_nth_drop_Suc[symmetric])
  have tk: "take (pos + 1) X = take pos X @ [X ! pos]" using pos by (simp add: take_Suc_conv_app_nth)
  show ?case
  proof (cases "c = w")
    case True
    have "(\<forall>fi \<in> set (frags_from w cs (pos + 1) []). suffix (fst fi) (take (snd fi) X)) \<longleftrightarrow>
          suffix [] (take (pos + 1) X) \<and> list_all2 (\<lambda>p t. p = w \<or> p = t) cs (take (length cs) (drop (pos + 1) X))"
      using Cons.IH[of "[]" "pos + 1"] Cons.prems(2) by simp
    then show ?thesis using True unfolding dr by simp
  next
    case False
    have "(\<forall>fi \<in> set (frags_from w cs (pos + 1) (cur @ [c])). suffix (fst fi) (take (snd fi) X)) \<longleftrightarrow>
          suffix (cur @ [c]) (take (pos + 1) X) \<and> list_all2 (\<lambda>p t. p = w \<or> p = t) cs (take (length cs) (drop (pos + 1) X))"
      using Cons.IH[of "cur @ [c]" "pos + 1"] Cons.prems by simp
    moreover have "suffix (cur @ [c]) (take (pos + 1) X) \<longleftrightarrow> suffix cur (take pos X) \<and> c = X ! pos"
      unfolding tk by auto
    ultimately show ?thesis using False unfolding dr by auto
  qed
qed

lemma earlier_at_snoc: "earlier_at F L (txt @ [c]) j = occurrences_at F L txt (Suc j)"
proof -
  have "\<And>fi. (snd fi + j < L \<and> seen_at L (txt @ [c]) j fi) \<longleftrightarrow>
             (snd fi + Suc j \<le> L \<and> seen_at L txt (Suc j) fi)"
  proof -
    fix fi :: "string \<times> nat"
    show "(snd fi + j < L \<and> seen_at L (txt @ [c]) j fi) \<longleftrightarrow>
             (snd fi + Suc j \<le> L \<and> seen_at L txt (Suc j) fi)"
    proof (cases "snd fi + j < L")
      case True
      have 1: "L - (snd fi + j) = Suc (L - (snd fi + Suc j))" using True by simp
      have 2: "length (txt @ [c]) - (L - (snd fi + j)) = length txt - (L - (snd fi + Suc j))"
        using True by simp
      have 3: "take (length txt - (L - (snd fi + Suc j))) (txt @ [c]) =
               take (length txt - (L - (snd fi + Suc j))) txt" by simp
      show ?thesis unfolding seen_at_def 2 3 using True 1 by auto
    next
      case False
      then show ?thesis by auto
    qed
  qed
  then show ?thesis unfolding earlier_at_def occurrences_at_def by simp
qed

lemma earlier_at_Nil: "earlier_at F L [] j = 0"
  unfolding earlier_at_def seen_at_def by (auto simp: filter_empty_conv)

lemma occurrences_at_beyond: "occurrences_at F L txt (Suc L) = 0"
  unfolding occurrences_at_def by (auto simp: filter_empty_conv)

lemma occurrences_at_split:
  assumes "\<forall>fi \<in> set F. suffix (fst fi) txt \<longrightarrow> snd fi \<le> L"
  shows "occurrences_at F L txt j =
           earlier_at F L txt j + length (filter (\<lambda>fi. suffix (fst fi) txt \<and> L - snd fi = j) F)"
proof -
  have eq: "\<And>fi. fi \<in> set F \<Longrightarrow> (snd fi + j \<le> L \<and> seen_at L txt j fi) \<longleftrightarrow>
       ((snd fi + j < L \<and> seen_at L txt j fi) \<or> (suffix (fst fi) txt \<and> L - snd fi = j))"
  proof -
    fix fi assume fi: "fi \<in> set F"
    show "(snd fi + j \<le> L \<and> seen_at L txt j fi) \<longleftrightarrow>
       ((snd fi + j < L \<and> seen_at L txt j fi) \<or> (suffix (fst fi) txt \<and> L - snd fi = j))"
    proof (cases "snd fi + j = L")
      case True
      then have "seen_at L txt j fi \<longleftrightarrow> suffix (fst fi) txt" by (simp add: seen_at_def)
      moreover have "L - snd fi = j" using True by simp
      ultimately show ?thesis using True by auto
    next
      case False
      have "\<not> (suffix (fst fi) txt \<and> L - snd fi = j)"
      proof
        assume a: "suffix (fst fi) txt \<and> L - snd fi = j"
        then have "snd fi \<le> L" using assms fi by blast
        then show False using a False by arith
      qed
      then show ?thesis using False by auto
    qed
  qed
  have "filter (\<lambda>fi. snd fi + j \<le> L \<and> seen_at L txt j fi) F =
        filter (\<lambda>fi. (snd fi + j < L \<and> seen_at L txt j fi) \<or> (suffix (fst fi) txt \<and> L - snd fi = j)) F"
    using eq by (intro filter_cong) auto
  moreover have "length (filter (\<lambda>fi. (snd fi + j < L \<and> seen_at L txt j fi) \<or> (suffix (fst fi) txt \<and> L - snd fi = j)) F) =
      length (filter (\<lambda>fi. snd fi + j < L \<and> seen_at L txt j fi) F) +
      length (filter (\<lambda>fi. suffix (fst fi) txt \<and> L - snd fi = j) F)"
  proof (rule length_filter_disj)
    fix fi :: "string \<times> nat"
    show "\<not> ((snd fi + j < L \<and> seen_at L txt j fi) \<and> (suffix (fst fi) txt \<and> L - snd fi = j))"
      by auto
  qed
  ultimately show ?thesis unfolding occurrences_at_def earlier_at_def by simp
qed

text \<open>The two conversions of an identifier. A delivered identifier is the stored one when
  that is below \<open>2 ^ 31\<close>; in general it is the stored one modulo \<open>2 ^ 32\<close>, or lies in the
  topmost \<open>2 ^ 31\<close> values of \<open>size_t\<close>.\<close>

lemma int_mod_neg: "- m \<le> x \<Longrightarrow> x < 0 \<Longrightarrow> (x::int) mod m = x + m"
proof -
  assume a: "- m \<le> x" "x < 0"
  have "x mod m = (x + m) mod m" by simp
  also have "\<dots> = x + m" using a by (intro mod_pos_pos_trivial) simp_all
  finally show ?thesis .
qed

lemma delivered_id_eq:
  "delivered_id i =
     (if i mod 2 ^ 32 < 2 ^ 31 then i mod 2 ^ 32 else i mod 2 ^ 32 + (2 ^ 64 - 2 ^ 32))"
proof -
  let ?r = "i mod 2 ^ 32"
  have r: "?r < 2 ^ 32" by simp
  show ?thesis
  proof (cases "?r < 2 ^ 31")
    case True
    then have "size_t_to_int i = int ?r" by (simp add: size_t_to_int_def Let_def)
    moreover have "int ?r mod 2 ^ 64 = int ?r" using r by (intro mod_pos_pos_trivial) simp_all
    ultimately show ?thesis using True by (simp add: delivered_id_def int_to_size_t_def)
  next
    case False
    then have s: "size_t_to_int i = int ?r - 2 ^ 32" by (simp add: size_t_to_int_def Let_def)
    have "- (2 ^ 64) \<le> int ?r - 2 ^ 32" "int ?r - 2 ^ 32 < 0" using r by simp_all
    then have "(int ?r - 2 ^ 32) mod 2 ^ 64 = int ?r - 2 ^ 32 + 2 ^ 64"
      by (rule int_mod_neg)
    then have "int_to_size_t (size_t_to_int i) = nat (int ?r - 2 ^ 32 + 2 ^ 64)"
      unfolding s int_to_size_t_def by simp
    also have "\<dots> = ?r + (2 ^ 64 - 2 ^ 32)" by simp
    finally show ?thesis using False by (simp add: delivered_id_def)
  qed
qed

lemma delivered_id_small: "i < 2 ^ 31 \<Longrightarrow> delivered_id i = i"
  by (simp add: delivered_id_eq)

lemma delivered_id_bound: "delivered_id i < 2 ^ 64"
proof -
  have "i mod 2 ^ 32 < 2 ^ 32" by simp
  then show ?thesis unfolding delivered_id_eq by (simp split: if_splits)
qed

lemma delivered_id_le: "delivered_id i < 2 ^ 63 \<Longrightarrow> delivered_id i \<le> i"
proof -
  assume a: "delivered_id i < 2 ^ 63"
  have "i mod 2 ^ 32 < 2 ^ 31"
  proof (rule ccontr)
    assume "\<not> i mod 2 ^ 32 < 2 ^ 31"
    then have "delivered_id i = i mod 2 ^ 32 + (2 ^ 64 - 2 ^ 32)" by (simp add: delivered_id_eq)
    then show False using a by simp
  qed
  then have "delivered_id i = i mod 2 ^ 32" by (simp add: delivered_id_eq)
  then show ?thesis by simp
qed

text \<open>The inner loop with the closure of \<open>UpdateWordOccurrences\<close>: it counts every
  delivered identifier, and is undefined as soon as one of them exceeds the pattern
  length.\<close>

lemma count_occurrence_delivered:
  assumes "length C = L + 1"
  shows "count_occurrence L (delivered_id i) C =
     (if delivered_id i \<le> L then Some (C[L - delivered_id i := C ! (L - delivered_id i) + 1])
      else None)"
proof (cases "delivered_id i \<le> L")
  case True
  then show ?thesis using assms by (simp add: count_occurrence_def size_t_sub_def Let_def)
next
  case False
  have "delivered_id i < 2 ^ 64" by (rule delivered_id_bound)
  then have "\<not> L + 2 ^ 64 - delivered_id i < L + 1" by arith
  then show ?thesis using False assms by (simp add: count_occurrence_def size_t_sub_def Let_def)
qed

lemma for_each_id_count:
  "\<forall>i \<in> set ids. delivered_id i \<le> L \<Longrightarrow> length C = L + 1 \<Longrightarrow>
   for_each_id (\<lambda>ident. count_occurrence L (int_to_size_t ident)) ids C =
     Some (map (\<lambda>j. C ! j + length (filter (\<lambda>i. L - delivered_id i = j) ids)) [0..<L + 1])"
proof (induction ids arbitrary: C)
  case Nil
  have "map (\<lambda>j. C ! j) [0..<length C] = C" by (rule map_nth)
  then show ?case using Nil by simp
next
  case (Cons i ids)
  let ?d = "delivered_id i"
  let ?C = "C[L - ?d := C ! (L - ?d) + 1]"
  have i: "?d \<le> L" using Cons.prems(1) by simp
  have co: "count_occurrence L (int_to_size_t (size_t_to_int i)) C = Some ?C"
    using count_occurrence_delivered[OF Cons.prems(2), of i] i by (simp add: delivered_id_def)
  have IH: "for_each_id (\<lambda>ident. count_occurrence L (int_to_size_t ident)) ids ?C =
     Some (map (\<lambda>j. ?C ! j + length (filter (\<lambda>i. L - delivered_id i = j) ids)) [0..<L + 1])"
    using Cons.IH[of ?C] Cons.prems by simp
  have "map (\<lambda>j. ?C ! j + length (filter (\<lambda>i. L - delivered_id i = j) ids)) [0..<L + 1] =
        map (\<lambda>j. C ! j + length (filter (\<lambda>i. L - delivered_id i = j) (i # ids))) [0..<L + 1]"
  proof (rule map_cong[OF refl])
    fix j assume "j \<in> set [0..<L + 1]"
    then have "j < length C" using Cons.prems(2) by auto
    then show "?C ! j + length (filter (\<lambda>i. L - delivered_id i = j) ids) =
               C ! j + length (filter (\<lambda>i. L - delivered_id i = j) (i # ids))"
      by (cases "j = L - ?d") auto
  qed
  then show ?case using co IH by simp
qed

lemma for_each_id_overflow:
  "\<exists>i \<in> set ids. L < delivered_id i \<Longrightarrow> length C = L + 1 \<Longrightarrow>
   for_each_id (\<lambda>ident. count_occurrence L (int_to_size_t ident)) ids C = None"
proof (induction ids arbitrary: C)
  case Nil
  then show ?case by simp
next
  case (Cons i ids)
  let ?d = "delivered_id i"
  have co: "count_occurrence L (int_to_size_t (size_t_to_int i)) C =
     (if ?d \<le> L then Some (C[L - ?d := C ! (L - ?d) + 1]) else None)"
    using count_occurrence_delivered[OF Cons.prems(2), of i] by (simp add: delivered_id_def)
  show ?case
  proof (cases "?d \<le> L")
    case True
    then have "\<exists>i \<in> set ids. L < delivered_id i" using Cons.prems(1) by auto
    then have "for_each_id (\<lambda>ident. count_occurrence L (int_to_size_t ident)) ids
                 (C[L - ?d := C ! (L - ?d) + 1]) = None"
      using Cons.IH[of "C[L - ?d := C ! (L - ?d) + 1]"] Cons.prems(2) by simp
    then show ?thesis using co True by simp
  next
    case False
    then show ?thesis using co by simp
  qed
qed

lemma ids_of_suffixes_set:
  "set (ids_of_suffixes F q) = snd ` {fi \<in> set F. suffix (fst fi) q}"
proof -
  have "set (ids_of_suffixes F q) = set_mset (mset (ids_of_suffixes F q))" by simp
  also have "\<dots> = set (map snd (filter (\<lambda>fi. suffix (fst fi) q) F))"
    unfolding mset_ids_of_suffixes by simp
  finally show ?thesis by auto
qed

lemma length_filter_all: "length (filter P xs) = length xs \<longleftrightarrow> (\<forall>x \<in> set xs. P x)"
proof (induction xs)
  case Nil
  show ?case by simp
next
  case (Cons x xs)
  have "length (filter P xs) \<noteq> Suc (length xs)"
    using length_filter_le[of P xs] by linarith
  then show ?case using Cons by auto
qed

lemma shift_window:
  assumes "f (Suc L) = (0::nat)"
  shows "tl (map f [0..<L + 1] @ [0]) = map (\<lambda>j. f (Suc j)) [0..<L + 1]"
proof -
  have "[0..<L + 1] = 0 # map Suc [0..<L]" by (simp add: upt_conv_Cons map_Suc_upt del: upt_Suc)
  then have "tl (map f [0..<L + 1] @ [0]) = map (\<lambda>j. f (Suc j)) [0..<L] @ [0]"
    by (simp add: o_def del: upt_Suc)
  also have "\<dots> = map (\<lambda>j. f (Suc j)) [0..<L + 1]" using assms by simp
  finally show ?thesis .
qed

lemma fragments_ids_le: "fi \<in> set (fragments P w) \<Longrightarrow> snd fi \<le> length P"
  using frags_from_bounds[of "[]" 0 fi w P] by (simp add: fragments_eq)

lemma words_in_trie: "fst ` set F \<subseteq> trie_nodes (map fst F)"
  using trie_nodes_word[of _ "map fst F"] by auto

lemma Update_run:
  assumes ok: "automaton_ok F h"
    and m: "aho_corasick_automaton m = Some h" "pattern_length m = L"
      "state m = \<lparr>node_ref = Some (longest_suffix_in (trie_nodes (map fst F)) q), root_ref = r\<rparr>"
      "words_occurrences_by_position m =
         map (earlier_at (map (\<lambda>fi. (fst fi, delivered_id (snd fi))) F) L q) [0..<L + 1]"
  shows "UpdateWordOccurrences m =
           (if \<forall>fi \<in> set F. suffix (fst fi) q \<longrightarrow> delivered_id (snd fi) \<le> L
            then Some (m\<lparr>words_occurrences_by_position :=
                   map (occurrences_at (map (\<lambda>fi. (fst fi, delivered_id (snd fi))) F) L q) [0..<L + 1]\<rparr>)
            else None)"
proof -
  let ?T = "trie_nodes (map fst F)"
  let ?D = "map (\<lambda>fi. (fst fi, delivered_id (snd fi))) F"
  let ?p = "longest_suffix_in ?T q"
  let ?C = "map (earlier_at ?D L q) [0..<L + 1]"
  let ?cb = "\<lambda>ident. count_occurrence L (int_to_size_t ident)"
  have pT: "?p \<in> ?T" by (rule lsuf_in[OF trie_nodes_Nil_in])
  have out: "ids_of_suffixes F ?p = ids_of_suffixes F q"
    by (rule ids_of_suffixes_lsuf[OF words_in_trie])
  have gm: "GenerateMatches (state m) h ?cb ?C = for_each_id ?cb (ids_of_suffixes F q) ?C"
    using GenerateMatches_loop_ok[OF ok pT, of ?cb r ?C] m(3) out
    by (simp add: GenerateMatches_def)
  have up: "UpdateWordOccurrences m =
      for_each_id ?cb (ids_of_suffixes F q) ?C \<bind>
        (\<lambda>counters. Some (m\<lparr>words_occurrences_by_position := counters\<rparr>))"
    using gm m(1,2,4) by (simp add: UpdateWordOccurrences_def)
  have ids: "set (ids_of_suffixes F q) = snd ` {fi \<in> set F. suffix (fst fi) q}"
    by (rule ids_of_suffixes_set)
  show ?thesis
  proof (cases "\<forall>fi \<in> set F. suffix (fst fi) q \<longrightarrow> delivered_id (snd fi) \<le> L")
    case True
    have le: "\<forall>i \<in> set (ids_of_suffixes F q). delivered_id i \<le> L"
      unfolding ids using True by auto
    have fe: "for_each_id ?cb (ids_of_suffixes F q) ?C =
       Some (map (\<lambda>j. ?C ! j + length (filter (\<lambda>i. L - delivered_id i = j) (ids_of_suffixes F q)))
               [0..<L + 1])"
      by (rule for_each_id_count[OF le]) simp
    have fitD: "\<forall>fi \<in> set ?D. suffix (fst fi) q \<longrightarrow> snd fi \<le> L" using True by auto
    have "map (\<lambda>j. ?C ! j + length (filter (\<lambda>i. L - delivered_id i = j) (ids_of_suffixes F q)))
              [0..<L + 1] =
          map (occurrences_at ?D L q) [0..<L + 1]"
    proof (rule map_cong[OF refl])
      fix j assume "j \<in> set [0..<L + 1]"
      then have j: "j < L + 1" by auto
      have 1: "?C ! j = earlier_at ?D L q j"
        using j nth_map_upt[of j "L + 1" 0 "earlier_at ?D L q"] by simp
      have 2: "length (filter (\<lambda>i. L - delivered_id i = j) (ids_of_suffixes F q)) =
               length (filter (\<lambda>fi. suffix (fst fi) q \<and> L - delivered_id (snd fi) = j) F)"
        by (rule count_ids_of_suffixes)
      have 3: "length (filter (\<lambda>fi. suffix (fst fi) q \<and> L - delivered_id (snd fi) = j) F) =
               length (filter (\<lambda>fi. suffix (fst fi) q \<and> L - snd fi = j) ?D)"
        by (simp add: filter_map o_def)
      show "?C ! j + length (filter (\<lambda>i. L - delivered_id i = j) (ids_of_suffixes F q)) =
            occurrences_at ?D L q j"
        unfolding 1 2 3 by (rule occurrences_at_split[OF fitD, symmetric])
    qed
    then show ?thesis using up fe True by simp
  next
    case False
    then obtain fi where "fi \<in> set F" "suffix (fst fi) q" "L < delivered_id (snd fi)"
      by (auto simp: not_le)
    then have "\<exists>i \<in> set (ids_of_suffixes F q). L < delivered_id i"
      unfolding ids by blast
    then have "for_each_id ?cb (ids_of_suffixes F q) ?C = None"
      by (rule for_each_id_overflow) simp
    then show ?thesis using up False by simp
  qed
qed

lemma Shift_ok:
  "ShiftWordOccurrencesCounters (m\<lparr>words_occurrences_by_position := map (occurrences_at F L q) [0..<L + 1]\<rparr>) =
     m\<lparr>words_occurrences_by_position := map (\<lambda>j. occurrences_at F L q (Suc j)) [0..<L + 1]\<rparr>"
  using shift_window[of "occurrences_at F L q" L, OF occurrences_at_beyond]
  by (simp add: ShiftWordOccurrencesCounters_def)

text \<open>\<open>Reset\<close> and \<open>Scan\<close> on a matcher for the pattern: they return exactly when the
  identifiers delivered at the current position fit the counter window.\<close>

lemma Reset_run:
  assumes m: "aho_corasick_automaton m = Some h" "automaton_reachable (BuildFor_builder P w) h"
      "pattern_length m = length P" "number_of_words m = length (fragments P w)"
  shows "(ids_fit P w [] \<longrightarrow> (\<exists>m'. Reset m = Some m' \<and> matcher_ok P w [] m')) \<and>
         (\<not> ids_fit P w [] \<longrightarrow> Reset m = None)"
proof -
  let ?F = "fragments P w"
  let ?D = "delivered_fragments P w"
  let ?L = "length P"
  let ?m1 = "m\<lparr>state := Root, words_occurrences_by_position := replicate (pattern_length m + 1) 0\<rparr>"
  have D: "?D = map (\<lambda>fi. (fst fi, delivered_id (snd fi))) ?F" by (simp add: delivered_fragments_def)
  have ok: "automaton_ok ?F h" using automaton_reachable_ok[OF m(2)] by (simp add: fragments_def)
  have "earlier_at ?D ?L [] = (\<lambda>j. 0)" by (rule ext) (rule earlier_at_Nil)
  then have C: "replicate (?L + 1) 0 = map (earlier_at ?D ?L []) [0..<?L + 1]"
    by (simp add: map_replicate_const del: upt_Suc replicate_Suc)
  have "UpdateWordOccurrences ?m1 =
      (if \<forall>fi \<in> set ?F. suffix (fst fi) [] \<longrightarrow> delivered_id (snd fi) \<le> ?L
       then Some (?m1\<lparr>words_occurrences_by_position := map (occurrences_at ?D ?L []) [0..<?L + 1]\<rparr>)
       else None)"
    unfolding D
    by (rule Update_run[OF ok, where q = "[]" and r = "Some root_addr"])
       (use m C in \<open>simp_all add: D Root_def root_addr_def del: upt_Suc replicate_Suc\<close>)
  then have up: "UpdateWordOccurrences ?m1 =
      (if ids_fit P w []
       then Some (?m1\<lparr>words_occurrences_by_position := map (occurrences_at ?D ?L []) [0..<?L + 1]\<rparr>)
       else None)"
    unfolding ids_fit_def .
  let ?m' = "?m1\<lparr>words_occurrences_by_position := map (\<lambda>j. occurrences_at ?D ?L [] (Suc j)) [0..<?L + 1]\<rparr>"
  have "Reset m = Some ?m'" if "ids_fit P w []"
    using that m(1) up Shift_ok[where m = ?m1 and F = ?D and L = ?L and q = "[]"]
    by (simp add: Reset_def del: upt_Suc replicate_Suc)
  moreover have "matcher_ok P w [] ?m'"
    using m by (simp add: matcher_ok_def Root_def root_addr_def del: upt_Suc)
  moreover have "Reset m = None" if "\<not> ids_fit P w []"
    using that m(1) up by (simp add: Reset_def del: upt_Suc replicate_Suc)
  ultimately show ?thesis by blast
qed

lemma Scan_run:
  assumes ok: "matcher_ok P w txt m"
  shows "(ids_fit P w (txt @ [c]) \<longrightarrow>
            (\<exists>m'. Scan m c f a = Some (m', if fires_after P w (txt @ [c]) then f a else a) \<and>
                  matcher_ok P w (txt @ [c]) m')) \<and>
         (\<not> ids_fit P w (txt @ [c]) \<longrightarrow> Scan m c f a = None)"
proof -
  let ?F = "fragments P w"
  let ?D = "delivered_fragments P w"
  let ?L = "length P"
  let ?T = "trie_nodes (map fst ?F)"
  let ?b = "BuildFor_builder P w"
  have D: "?D = map (\<lambda>fi. (fst fi, delivered_id (snd fi))) ?F" by (simp add: delivered_fragments_def)
  obtain h where h: "aho_corasick_automaton m = Some h" "automaton_reachable ?b h"
    using ok unfolding matcher_ok_def by blast
  have m: "pattern_length m = ?L" "number_of_words m = length ?F"
     "state m = \<lparr>node_ref = Some (longest_suffix_in ?T txt), root_ref = Some root_addr\<rparr>"
     "words_occurrences_by_position m = map (\<lambda>j. occurrences_at ?D ?L txt (Suc j)) [0..<?L + 1]"
    using ok unfolding matcher_ok_def by auto
  have aok: "automaton_ok ?F h" using automaton_reachable_ok[OF h(2)] by (simp add: fragments_def)
  have hk: "heap_ok ?T ?F ?T ?T h" using aok by (simp add: automaton_ok_def)
  have "longest_suffix_in ?T txt \<in> ?T" by (rule lsuf_in[OF trie_nodes_Nil_in])
  then obtain n where n: "h (longest_suffix_in ?T txt) = Some n" using heap_ok_inD[OF hk] by blast
  obtain h1 where h1: "GetAutomatonTransition h (Some (longest_suffix_in ?T txt)) (Some root_addr) c =
        Some (h1, Some (longest_suffix_in ?T (longest_suffix_in ?T txt @ [c])))"
    using automaton_ok_total[OF aok n] by blast
  have st: "longest_suffix_in ?T (longest_suffix_in ?T txt @ [c]) = longest_suffix_in ?T (txt @ [c])"
    by (rule lsuf_snoc[OF trie_nodes_prefix_closed, symmetric])
  have r1: "automaton_reachable ?b h1" by (rule automaton_reachable.transition[OF h(2) h1])
  have aok1: "automaton_ok ?F h1" using automaton_reachable_ok[OF r1] by (simp add: fragments_def)
  let ?st = "\<lparr>node_ref = Some (longest_suffix_in ?T (txt @ [c])), root_ref = Some root_addr\<rparr>"
  have nx: "Next (state m) c h = Some (h1, ?st)" using h1 m(3) st by (simp add: Next_def)
  let ?m1 = "m\<lparr>state := ?st, aho_corasick_automaton := Some h1\<rparr>"
  have C: "words_occurrences_by_position ?m1 = map (earlier_at ?D ?L (txt @ [c])) [0..<?L + 1]"
    using m(4) by (simp add: earlier_at_snoc del: upt_Suc)
  let ?m2 = "?m1\<lparr>words_occurrences_by_position := map (occurrences_at ?D ?L (txt @ [c])) [0..<?L + 1]\<rparr>"
  have "UpdateWordOccurrences ?m1 =
      (if \<forall>fi \<in> set ?F. suffix (fst fi) (txt @ [c]) \<longrightarrow> delivered_id (snd fi) \<le> ?L
       then Some ?m2 else None)"
    unfolding D
    by (rule Update_run[OF aok1, where q = "txt @ [c]" and r = "Some root_addr"])
       (use m C in \<open>simp_all add: D del: upt_Suc\<close>)
  then have up: "UpdateWordOccurrences ?m1 = (if ids_fit P w (txt @ [c]) then Some ?m2 else None)"
    unfolding ids_fit_def .
  have front: "words_occurrences_by_position ?m2 =
      occurrences_at ?D ?L (txt @ [c]) 0 # map (occurrences_at ?D ?L (txt @ [c])) [1..<?L + 1]"
    by (simp add: upt_conv_Cons del: upt_Suc)
  let ?m' = "?m1\<lparr>words_occurrences_by_position := map (\<lambda>j. occurrences_at ?D ?L (txt @ [c]) (Suc j)) [0..<?L + 1]\<rparr>"
  have sh: "ShiftWordOccurrencesCounters ?m2 = ?m'" by (rule Shift_ok)
  have "Scan m c f a = Some (?m', if fires_after P w (txt @ [c]) then f a else a)"
    if "ids_fit P w (txt @ [c])"
    unfolding Scan_def fires_after_def using that h(1) nx up front sh m(2) by (simp del: upt_Suc)
  moreover have "matcher_ok P w (txt @ [c]) ?m'"
    using m r1 by (simp add: matcher_ok_def del: upt_Suc)
  moreover have "Scan m c f a = None" if "\<not> ids_fit P w (txt @ [c])"
    unfolding Scan_def using that h(1) nx up by (simp del: upt_Suc)
  ultimately show ?thesis by blast
qed

lemma BuildFor_builder_lengths:
  "length (words_b (BuildFor_builder P w)) = length (ids_b (BuildFor_builder P w))"
  by (simp add: BuildFor_builder_def BuildFor_loop_words BuildFor_loop_ids AutomatonBuilder_new_def
        del: upt_Suc)

lemma length_fragments: "length (fragments P w) = length (Split P (\<lambda>x. x = w))"
  using BuildFor_builder_lengths[of P w]
  by (simp add: fragments_def) (simp add: BuildFor_builder_def BuildFor_loop_words AutomatonBuilder_new_def)

lemma BuildFor_run:
  "(ids_fit P w [] \<longrightarrow> (\<exists>m. BuildFor P w = Some m \<and> matcher_ok P w [] m)) \<and>
   (\<not> ids_fit P w [] \<longrightarrow> BuildFor P w = None)"
proof -
  let ?b = "BuildFor_builder P w"
  obtain h where h: "Build ?b = Some h" using Build_ok[of ?b] BuildFor_builder_lengths[of P w] by auto
  have r: "automaton_reachable ?b h" by (rule automaton_reachable.built[OF h])
  let ?m = "WildcardMatcher_new\<lparr>pattern_length := length P, number_of_words := length (Split P (\<lambda>x. x = w)),
             aho_corasick_automaton := Some h\<rparr>"
  have rs: "(ids_fit P w [] \<longrightarrow> (\<exists>m'. Reset ?m = Some m' \<and> matcher_ok P w [] m')) \<and>
         (\<not> ids_fit P w [] \<longrightarrow> Reset ?m = None)"
    by (rule Reset_run[of ?m h P w]) (use r in \<open>simp_all add: length_fragments\<close>)
  have "BuildFor P w = Reset ?m" using h by (simp add: BuildFor_def Let_def)
  then show ?thesis using rs by simp
qed

text \<open>The loop over the text computes \<open>run_text\<close>, whatever the caches hold.\<close>

lemma scan_text_run:
  "matcher_ok P w txt m \<Longrightarrow>
   map_option snd (scan_text cb m (length txt) rest acc) = run_text P w cb txt rest acc \<and>
   (\<forall>m' r. scan_text cb m (length txt) rest acc = Some (m', r) \<longrightarrow> matcher_ok P w (txt @ rest) m')"
proof (induction rest arbitrary: "txt" m acc)
  case Nil
  then show ?case by simp
next
  case (Cons c rest)
  let ?t = "txt @ [c]"
  let ?acc1 = "if fires_after P w ?t then cb (length txt) acc else acc"
  note sr = Scan_run[OF Cons.prems, of c "cb (length txt)" acc]
  show ?case
  proof (cases "ids_fit P w ?t")
    case True
    then obtain m1 where m1: "Scan m c (cb (length txt)) acc = Some (m1, ?acc1)"
        "matcher_ok P w ?t m1"
      using sr by blast
    have IH: "map_option snd (scan_text cb m1 (length ?t) rest ?acc1) = run_text P w cb ?t rest ?acc1"
       "\<forall>m' r. scan_text cb m1 (length ?t) rest ?acc1 = Some (m', r) \<longrightarrow> matcher_ok P w (?t @ rest) m'"
      using Cons.IH[OF m1(2), of ?acc1] by auto
    have "scan_text cb m (length txt) (c # rest) acc = scan_text cb m1 (length ?t) rest ?acc1"
      using m1(1) by simp
    then show ?thesis using IH True by simp
  next
    case False
    then have "Scan m c (cb (length txt)) acc = None" using sr by blast
    then show ?thesis using False by simp
  qed
qed

lemma run_text_Some:
  "run_text P w cb txt rest acc = Some r \<Longrightarrow>
   r = foldl (\<lambda>a i. if fires_after P w (take (Suc i) (txt @ rest)) then cb i a else a) acc
         [length txt..<length txt + length rest]"
proof (induction rest arbitrary: "txt" acc)
  case Nil
  then show ?case by simp
next
  case (Cons c rest)
  let ?t = "txt @ [c]"
  let ?acc1 = "if fires_after P w ?t then cb (length txt) acc else acc"
  have run: "run_text P w cb ?t rest ?acc1 = Some r"
    using Cons.prems by (simp split: if_splits)
  have up: "[length txt..<length txt + length (c # rest)] =
            length txt # [length ?t..<length ?t + length rest]"
    by (simp add: upt_conv_Cons del: upt_Suc)
  have tk: "take (Suc (length txt)) (txt @ c # rest) = ?t" by simp
  show ?case
    unfolding up using Cons.IH[OF run] tk by (simp del: upt_Suc)
qed

lemma run_text_map:
  "run_text P w (\<lambda>i occ. occ @ [g i]) txt rest (map g acc) =
     map_option (map g) (run_text P w (\<lambda>i fired. fired @ [i]) txt rest acc)"
proof (induction rest arbitrary: "txt" acc)
  case Nil
  show ?case by simp
next
  case (Cons c rest)
  show ?case
    using Cons.IH[of "txt @ [c]" "acc @ [length txt]"] Cons.IH[of "txt @ [c]" acc] by simp
qed

text \<open>Below \<open>2 ^ 31\<close> the conversions change no identifier of a pattern.\<close>

lemma delivered_fragments_small:
  assumes "length P < 2 ^ 31"
  shows "delivered_fragments P w = fragments P w"
proof -
  have "\<And>fi. fi \<in> set (fragments P w) \<Longrightarrow> (fst fi, delivered_id (snd fi)) = fi"
  proof -
    fix fi assume "fi \<in> set (fragments P w)"
    then have "snd fi < 2 ^ 31" using fragments_ids_le[of fi P w] assms by simp
    then show "(fst fi, delivered_id (snd fi)) = fi" by (simp add: delivered_id_small)
  qed
  then show ?thesis unfolding delivered_fragments_def by (simp add: map_idI)
qed

lemma ids_fit_small:
  assumes "length P < 2 ^ 31"
  shows "ids_fit P w t"
  unfolding ids_fit_def
proof (intro ballI impI)
  fix fi assume fi: "fi \<in> set (fragments P w)"
  have le: "snd fi \<le> length P" by (rule fragments_ids_le[OF fi])
  then have "delivered_id (snd fi) = snd fi" using assms by (simp add: delivered_id_small)
  then show "delivered_id (snd fi) \<le> length P" using le by simp
qed

lemma suffix_append_short: "length f \<le> length B \<Longrightarrow> suffix f (A @ B) \<longleftrightarrow> suffix f B"
  by (auto simp: suffix_append)

lemma fires_iff:
  "occurrences_at (fragments P w) (length P) t 0 = length (fragments P w) \<longleftrightarrow>
   length P \<le> length t \<and> matches_at P w t (length t - length P)"
proof -
  let ?F = "fragments P w"
  let ?L = "length P"
  have F: "?F = frags_from w P 0 []" by (rule fragments_eq)
  have bnd: "\<And>fi. fi \<in> set ?F \<Longrightarrow> snd fi \<le> ?L \<and> length (fst fi) \<le> snd fi"
    using frags_from_bounds[of "[]" 0 _ w P] unfolding F by fastforce
  have all: "occurrences_at ?F ?L t 0 = length ?F \<longleftrightarrow> (\<forall>fi \<in> set ?F. seen_at ?L t 0 fi)"
    unfolding occurrences_at_def length_filter_all using bnd by auto
  have key: "(\<forall>fi \<in> set ?F. seen_at ?L t 0 fi) \<longleftrightarrow> matches_at P w t (length t - ?L)"
    if le: "?L \<le> length t"
  proof -
    let ?s = "length t - ?L"
    let ?X = "drop ?s t"
    have lenX: "length ?X = ?L" using le by simp
    have each: "\<And>fi. fi \<in> set ?F \<Longrightarrow> seen_at ?L t 0 fi \<longleftrightarrow> suffix (fst fi) (take (snd fi) ?X)"
    proof -
      fix fi assume fi: "fi \<in> set ?F"
      have b: "snd fi \<le> ?L" "length (fst fi) \<le> snd fi" using bnd[OF fi] by auto
      have idx: "length t - (?L - snd fi) = ?s + snd fi" using le b(1) by simp
      have tk: "take (?s + snd fi) t = take ?s t @ take (snd fi) ?X" by (rule take_add)
      have "length (fst fi) \<le> length (take (snd fi) ?X)" using b lenX by simp
      then have "suffix (fst fi) (take ?s t @ take (snd fi) ?X) \<longleftrightarrow> suffix (fst fi) (take (snd fi) ?X)"
        by (rule suffix_append_short)
      moreover have "?L - snd fi \<le> length t" using le by linarith
      ultimately show "seen_at ?L t 0 fi \<longleftrightarrow> suffix (fst fi) (take (snd fi) ?X)"
        unfolding seen_at_def using idx tk by simp
    qed
    have "(\<forall>fi \<in> set ?F. suffix (fst fi) (take (snd fi) ?X)) \<longleftrightarrow>
          suffix [] (take 0 ?X) \<and> list_all2 (\<lambda>p t. p = w \<or> p = t) P (take ?L (drop 0 ?X))"
      unfolding F by (rule frags_from_match) (use lenX in simp_all)
    then show ?thesis using each by (simp add: matches_at_def)
  qed
  show ?thesis
  proof (cases "?L \<le> length t")
    case True
    then show ?thesis using all key by simp
  next
    case False
    obtain f0 where f0: "(f0, length f0 + (0 - length ([]::string))) \<in> set ?F"
      using frags_from_first[of "[]" 0 w P] unfolding F by auto
    then have in0: "(f0, length f0) \<in> set ?F" by simp
    have "\<not> seen_at ?L t 0 (f0, length f0)"
    proof
      assume "seen_at ?L t 0 (f0, length f0)"
      then have a: "?L - length f0 \<le> length t"
          "suffix f0 (take (length t - (?L - length f0)) t)" by (simp_all add: seen_at_def)
      have "length f0 \<le> length (take (length t - (?L - length f0)) t)"
        using a(2) by (rule suffix_length_le)
      then have "length f0 \<le> length t - (?L - length f0)" by simp
      then show False using False a(1) bnd[OF in0] by simp
    qed
    then show ?thesis using all in0 False by blast
  qed
qed

lemma matches_at_take:
  "length P \<le> e \<Longrightarrow> e \<le> length T \<Longrightarrow>
   matches_at P w (take e T) (e - length P) = matches_at P w T (e - length P)"
proof -
  assume a: "length P \<le> e" "e \<le> length T"
  have "drop (e - length P) (take e T) = take (e - (e - length P)) (drop (e - length P) T)"
    by (rule drop_take)
  also have "e - (e - length P) = length P" using a by simp
  finally show ?thesis by (simp add: matches_at_def)
qed

lemma fires_after_small:
  assumes "length P < 2 ^ 31"
  shows "fires_after P w t \<longleftrightarrow> length P \<le> length t \<and> matches_at P w t (length t - length P)"
  unfolding fires_after_def delivered_fragments_small[OF assms] by (rule fires_iff)

text \<open>The front counter cannot reach the number of fragments before the text is as long
  as the pattern: the first fragment must have been counted, and it is delivered with an
  identifier that is not above its own.\<close>

lemma fires_after_late:
  assumes L: "length P < 2 ^ 63" and f: "fires_after P w t"
  shows "length P \<le> length t"
proof -
  let ?F = "fragments P w"
  let ?D = "delivered_fragments P w"
  let ?L = "length P"
  have "length (filter (\<lambda>fi. snd fi + 0 \<le> ?L \<and> seen_at ?L t 0 fi) ?D) = length ?D"
    using f by (simp add: fires_after_def occurrences_at_def delivered_fragments_def)
  then have all: "\<forall>fi \<in> set ?D. snd fi + 0 \<le> ?L \<and> seen_at ?L t 0 fi"
    by (simp only: length_filter_all)
  obtain f0 where "(f0, length f0 + (0 - length ([]::string))) \<in> set ?F"
    using frags_from_first[of "[]" 0 w P] unfolding fragments_eq by auto
  then have in0: "(f0, length f0) \<in> set ?F" by simp
  let ?d = "delivered_id (length f0)"
  have "(f0, ?d) \<in> set ?D"
    unfolding delivered_fragments_def using in0 by force
  then have d: "?d \<le> ?L" and seen: "seen_at ?L t 0 (f0, ?d)" using all by auto
  have a: "?L - ?d \<le> length t" "suffix f0 (take (length t - (?L - ?d)) t)"
    using seen by (simp_all add: seen_at_def)
  have "?d \<le> length f0" using d L by (intro delivered_id_le) simp
  moreover have "length f0 \<le> length (take (length t - (?L - ?d)) t)"
    using a(2) by (rule suffix_length_le)
  ultimately show ?thesis using a(1) d by simp
qed

lemma run_text_small:
  assumes L: "length P < 2 ^ 31"
  shows "run_text P w cb txt rest acc =
     Some (foldl (\<lambda>a i. if match_ends_at P w (txt @ rest) (Suc i) then cb i a else a) acc
             [length txt..<length txt + length rest])"
proof (induction rest arbitrary: "txt" acc)
  case Nil
  show ?case by simp
next
  case (Cons c rest)
  let ?t = "txt @ [c]"
  have fire: "fires_after P w ?t \<longleftrightarrow> match_ends_at P w (txt @ c # rest) (Suc (length txt))"
  proof -
    have "fires_after P w ?t \<longleftrightarrow> length P \<le> length ?t \<and> matches_at P w ?t (length ?t - length P)"
      by (rule fires_after_small[OF L])
    also have "\<dots> \<longleftrightarrow> length P \<le> Suc (length txt) \<and>
          matches_at P w (take (Suc (length txt)) (txt @ c # rest)) (Suc (length txt) - length P)"
      by simp
    also have "\<dots> \<longleftrightarrow> length P \<le> Suc (length txt) \<and>
          matches_at P w (txt @ c # rest) (Suc (length txt) - length P)"
      using matches_at_take[of P "Suc (length txt)" "txt @ c # rest" w] by auto
    finally show ?thesis by (simp add: match_ends_at_def)
  qed
  have up: "[length txt..<length txt + length (c # rest)] =
            length txt # [length ?t..<length ?t + length rest]"
    by (simp add: upt_conv_Cons del: upt_Suc)
  show ?case
    unfolding up using Cons.IH[of ?t] ids_fit_small[OF L, of w ?t] fire by (simp del: upt_Suc)
qed

lemma foldl_filter_map:
  "foldl (\<lambda>a i. if Q i then a @ [g i] else a) acc xs = acc @ map g (filter Q xs)"
  by (induction xs arbitrary: acc) auto

lemma bind_snd: "(x \<bind> (\<lambda>(a, b). Some b)) = map_option snd x"
  by (cases x) auto

text \<open>What \<open>FindFuzzyMatches\<close> and the recording loop return, for every pattern.\<close>

lemma match_firings_run:
  "match_firings P T w =
     (if ids_fit P w [] then run_text P w (\<lambda>i fired. fired @ [i]) [] T [] else None)"
proof (cases "ids_fit P w []")
  case True
  then obtain m where m: "BuildFor P w = Some m" "matcher_ok P w [] m" using BuildFor_run by blast
  have "map_option snd (scan_text (\<lambda>i fired. fired @ [i]) m 0 T []) =
        run_text P w (\<lambda>i fired. fired @ [i]) [] T []"
    using scan_text_run[OF m(2), of "\<lambda>i fired. fired @ [i]" T "[]"] by simp
  then show ?thesis using True m(1) by (simp add: match_firings_def bind_snd)
next
  case False
  then have "BuildFor P w = None" using BuildFor_run by blast
  then show ?thesis using False by (simp add: match_firings_def)
qed

lemma FindFuzzyMatches_run:
  "FindFuzzyMatches P T w =
     (if ids_fit P w []
      then run_text P w (\<lambda>i occ. occ @ [size_t_sub (i + 1) (length P)]) [] T [] else None)"
proof (cases "ids_fit P w []")
  case True
  let ?cb = "\<lambda>i occ. occ @ [size_t_sub (i + 1) (length P)]"
  obtain m where m: "BuildFor P w = Some m" "matcher_ok P w [] m" using True BuildFor_run by blast
  have "map_option snd (scan_text ?cb m 0 T []) = run_text P w ?cb [] T []"
    using scan_text_run[OF m(2), of ?cb T "[]"] by simp
  then show ?thesis using True m(1) by (simp add: FindFuzzyMatches_def Let_def bind_snd)
next
  case False
  then have "BuildFor P w = None" using BuildFor_run by blast
  then show ?thesis using False by (simp add: FindFuzzyMatches_def Let_def)
qed

lemma FindFuzzyMatches_firings:
  "FindFuzzyMatches P T w =
     map_option (map (\<lambda>i. size_t_sub (i + 1) (length P))) (match_firings P T w)"
  using run_text_map[of P w "\<lambda>i. size_t_sub (i + 1) (length P)" "[]" T "[]"]
  by (simp add: FindFuzzyMatches_run match_firings_run)

lemma match_firings_Some:
  assumes "match_firings P T w = Some fired"
  shows "fired = filter (\<lambda>i. fires_after P w (take (Suc i) T)) [0..<length T]"
proof -
  have "run_text P w (\<lambda>i fired. fired @ [i]) [] T [] = Some fired"
    using assms by (simp add: match_firings_run split: if_splits)
  then have "fired = foldl (\<lambda>a i. if fires_after P w (take (Suc i) ([] @ T)) then a @ [i] else a) []
                      [length ([]::string)..<length ([]::string) + length T]"
    by (rule run_text_Some)
  then show ?thesis
    using foldl_filter_map[of "\<lambda>i. fires_after P w (take (Suc i) T)" "\<lambda>i. i" "[]" "[0..<length T]"]
    by simp
qed

text \<open>Patterns shorter than \<open>2 ^ 31\<close> characters: the matcher always returns, and reports
  the ends of the matches.\<close>

lemma BuildFor_ok:
  assumes "length P < 2 ^ 31"
  shows "\<exists>m. BuildFor P w = Some m \<and> matcher_ok P w [] m"
  using BuildFor_run[of P w] ids_fit_small[OF assms, of w "[]"] by blast

lemma Scan_ok:
  assumes "length P < 2 ^ 31" and "matcher_ok P w txt m"
  shows "\<exists>m'. Scan m c f a = Some (m', if fires_after P w (txt @ [c]) then f a else a) \<and>
              matcher_ok P w (txt @ [c]) m'"
  using Scan_run[OF assms(2), of c f a] ids_fit_small[OF assms(1), of w "txt @ [c]"] by blast

lemma scan_text_ok:
  assumes L: "length P < 2 ^ 31" and ok: "matcher_ok P w txt m"
  shows "\<exists>m'. scan_text cb m (length txt) rest acc =
           Some (m', foldl (\<lambda>a i. if match_ends_at P w (txt @ rest) (Suc i) then cb i a else a) acc
                       [length txt..<length txt + length rest])"
proof -
  have "map_option snd (scan_text cb m (length txt) rest acc) =
      Some (foldl (\<lambda>a i. if match_ends_at P w (txt @ rest) (Suc i) then cb i a else a) acc
                       [length txt..<length txt + length rest])"
    using scan_text_run[OF ok, of cb rest acc] run_text_small[OF L, of w cb "txt" rest acc] by simp
  then show ?thesis by (cases "scan_text cb m (length txt) rest acc") auto
qed

lemma FindFuzzyMatches_general:
  assumes L: "length P < 2 ^ 31"
  shows "FindFuzzyMatches P T w =
     Some (map (\<lambda>i. Suc i - length P) (filter (\<lambda>i. match_ends_at P w T (Suc i)) [0..<length T]))"
proof -
  let ?cb = "\<lambda>i occ. occ @ [size_t_sub (i + 1) (length P)]"
  have "FindFuzzyMatches P T w = run_text P w ?cb [] T []"
    using ids_fit_small[OF L, of w "[]"] by (simp add: FindFuzzyMatches_run)
  also have "\<dots> = Some (foldl (\<lambda>a i. if match_ends_at P w T (Suc i) then ?cb i a else a) [] [0..<length T])"
    using run_text_small[OF L, of w ?cb "[]" T "[]"] by simp
  also have "foldl (\<lambda>a i. if match_ends_at P w T (Suc i) then ?cb i a else a) [] [0..<length T] =
        map (\<lambda>i. size_t_sub (i + 1) (length P)) (filter (\<lambda>i. match_ends_at P w T (Suc i)) [0..<length T])"
    using foldl_filter_map[of "\<lambda>i. match_ends_at P w T (Suc i)" "\<lambda>i. size_t_sub (i + 1) (length P)" "[]"]
    by simp
  also have "\<dots> = map (\<lambda>i. Suc i - length P) (filter (\<lambda>i. match_ends_at P w T (Suc i)) [0..<length T])"
    by (rule map_cong[OF refl]) (simp add: match_ends_at_def size_t_sub_def)
  finally show ?thesis .
qed

lemma match_firings_general:
  assumes L: "length P < 2 ^ 31"
  shows "match_firings P T w = Some (filter (\<lambda>i. match_ends_at P w T (Suc i)) [0..<length T])"
proof -
  let ?cb = "\<lambda>i (fired :: nat list). fired @ [i]"
  have "match_firings P T w = run_text P w ?cb [] T []"
    using ids_fit_small[OF L, of w "[]"] by (simp add: match_firings_run)
  also have "\<dots> = Some (foldl (\<lambda>a i. if match_ends_at P w T (Suc i) then ?cb i a else a) [] [0..<length T])"
    using run_text_small[OF L, of w ?cb "[]" T "[]"] by simp
  also have "foldl (\<lambda>a i. if match_ends_at P w T (Suc i) then ?cb i a else a) [] [0..<length T] =
        filter (\<lambda>i. match_ends_at P w T (Suc i)) [0..<length T]"
    using foldl_filter_map[of "\<lambda>i. match_ends_at P w T (Suc i)" "\<lambda>i. i" "[]"]
    by simp
  finally show ?thesis .
qed

lemma positions_from_ends:
  "1 \<le> L \<Longrightarrow>
   map (\<lambda>i. Suc i - L) (filter (\<lambda>i. L \<le> Suc i \<and> M (Suc i - L)) [0..<n]) = filter M [0..<n + 1 - L]"
proof (induction n)
  case 0
  then show ?case by simp
next
  case (Suc n)
  show ?case
  proof (cases "L \<le> Suc n")
    case True
    then have "Suc n + 1 - L = Suc (n + 1 - L)" by simp
    then show ?thesis using Suc True by simp
  next
    case False
    then show ?thesis using Suc by simp
  qed
qed

lemma FindFuzzyMatches_nonempty:
  assumes "P \<noteq> []" and L: "length P < 2 ^ 31"
  shows "FindFuzzyMatches P T w = Some (filter (matches_at P w T) [0..<length T + 1 - length P])"
proof -
  have "1 \<le> length P" using assms(1) by (cases P) auto
  then show ?thesis
    unfolding FindFuzzyMatches_general[OF L] match_ends_at_def
    using positions_from_ends[of "length P" "matches_at P w T" "length T"] by simp
qed

lemma FindFuzzyMatches_empty:
  "FindFuzzyMatches [] T w = Some [1..<length T + 1]"
proof -
  have L: "length ([]::string) < 2 ^ 31" by simp
  have "map Suc [0..<length T] = [1..<length T + 1]" using map_Suc_upt[of 0 "length T"] by simp
  then show ?thesis
    unfolding FindFuzzyMatches_general[OF L] by (simp add: match_ends_at_def matches_at_def del: upt_Suc)
qed

lemma occurs_at_iff: "occurs_at P T s \<longleftrightarrow> (\<exists>u v. T = u @ P @ v \<and> length u = s)"
proof
  assume a: "occurs_at P T s"
  have "T = take s T @ take (length P) (drop s T) @ drop (length P) (drop s T)"
    by (metis append_take_drop_id)
  then have "T = take s T @ P @ drop (length P) (drop s T)" using a by (simp add: occurs_at_def)
  moreover have "length (take s T) = s" using a by (simp add: occurs_at_def)
  ultimately show "\<exists>u v. T = u @ P @ v \<and> length u = s" by blast
next
  assume "\<exists>u v. T = u @ P @ v \<and> length u = s"
  then show "occurs_at P T s" by (auto simp: occurs_at_def)
qed

lemma matches_at_literal:
  assumes "w \<notin> set P"
  shows "matches_at P w T s \<longleftrightarrow> occurs_at P T s \<or> (P = [] \<and> length T < s)"
proof -
  have "list_all2 (\<lambda>p t. p = w \<or> p = t) P X \<longleftrightarrow> P = X" for X
  proof -
    have "list_all2 (\<lambda>p t. p = w \<or> p = t) P X \<longleftrightarrow> list_all2 (=) P X"
      using assms by (auto simp: list_all2_conv_all_nth)
    then show ?thesis by (simp add: list_all2_eq)
  qed
  then have m: "matches_at P w T s \<longleftrightarrow> P = take (length P) (drop s T)" by (simp add: matches_at_def)
  show ?thesis
  proof (cases "s + length P \<le> length T")
    case True
    then show ?thesis using m by (auto simp: occurs_at_def)
  next
    case False
    have "P = take (length P) (drop s T) \<longleftrightarrow> P = []"
    proof
      assume e: "P = take (length P) (drop s T)"
      have "length (take (length P) (drop s T)) = min (length P) (length T - s)" by simp
      then have "length P = min (length P) (length T - s)" using e by simp
      then show "P = []" using False by auto
    qed simp
    then show ?thesis using m False by (auto simp: occurs_at_def)
  qed
qed

lemma FindFuzzyMatches_literal:
  assumes "P \<noteq> []" "w \<notin> set P" "length P < 2 ^ 31"
  shows "FindFuzzyMatches P T w = Some (filter (occurs_at P T) [0..<length T + 1 - length P])"
proof -
  have "filter (matches_at P w T) [0..<length T + 1 - length P] =
        filter (occurs_at P T) [0..<length T + 1 - length P]"
    using matches_at_literal[OF assms(2)] assms(1) by (intro filter_cong) auto
  then show ?thesis using FindFuzzyMatches_nonempty[OF assms(1,3)] by simp
qed

lemma matches_at_wildcards:
  assumes "set P \<subseteq> {w}"
  shows "matches_at P w T s \<longleftrightarrow> length P \<le> length T - s"
proof -
  have "\<forall>i < length P. P ! i = w" using assms nth_mem[of _ P] by blast
  then have "list_all2 (\<lambda>p t. p = w \<or> p = t) P X \<longleftrightarrow> length P = length X" for X
    by (auto simp: list_all2_conv_all_nth)
  then show ?thesis by (auto simp: matches_at_def)
qed

lemma FindFuzzyMatches_wildcards:
  assumes "P \<noteq> []" "set P \<subseteq> {w}" "length P < 2 ^ 31"
  shows "FindFuzzyMatches P T w = Some [0..<length T + 1 - length P]"
proof -
  have "filter (matches_at P w T) [0..<length T + 1 - length P] = [0..<length T + 1 - length P]"
    using matches_at_wildcards[OF assms(2)] by (intro filter_True) auto
  then show ?thesis using FindFuzzyMatches_nonempty[OF assms(1,3)] by simp
qed

text \<open>A pattern of \<open>2 ^ 31\<close> or more wildcards: the root holds the identifier \<open>2 ^ 31\<close>,
  which \<open>Reset\<close> receives as \<open>2 ^ 64 - 2 ^ 31\<close>; the counter index is outside the window.\<close>

lemma frags_from_wildcards:
  "set s \<subseteq> {w} \<Longrightarrow> 1 \<le> i \<Longrightarrow> i \<le> length s \<Longrightarrow> ([], pos + i) \<in> set (frags_from w s pos cur)"
proof (induction s arbitrary: pos cur i)
  case Nil
  then show ?case by simp
next
  case (Cons c cs)
  have c: "c = w" and cs: "set cs \<subseteq> {w}" using Cons.prems(1) by auto
  show ?case
  proof (cases "i = 1")
    case True
    have "([], pos + 1) \<in> set (frags_from w cs (pos + 1) [])"
    proof (cases cs)
      case Nil
      then show ?thesis by simp
    next
      case (Cons d ds)
      then have "d = w" using cs by simp
      then show ?thesis using Cons by simp
    qed
    then show ?thesis using c True by simp
  next
    case False
    then have "1 \<le> i - 1" "i - 1 \<le> length cs" using Cons.prems(2,3) by auto
    then have "([], pos + 1 + (i - 1)) \<in> set (frags_from w cs (pos + 1) [])"
      by (rule Cons.IH[OF cs])
    moreover have "pos + 1 + (i - 1) = pos + i" using Cons.prems(2) by simp
    ultimately show ?thesis using c by simp
  qed
qed

lemma BuildFor_overflow:
  assumes "2 ^ 31 \<le> k" and "k < 2 ^ 63"
  shows "BuildFor (replicate k w) w = None"
proof -
  have "([], 0 + 2 ^ 31) \<in> set (frags_from w (replicate k w) 0 [])"
    by (rule frags_from_wildcards) (use assms(1) in auto)
  then have in0: "([], 2 ^ 31) \<in> set (fragments (replicate k w) w)" by (simp add: fragments_eq)
  have "delivered_id (2 ^ 31) = 2 ^ 64 - 2 ^ 31" by (simp add: delivered_id_eq)
  then have "\<not> delivered_id (2 ^ 31) \<le> k" using assms(2) by simp
  then have "\<not> ids_fit (replicate k w) w []"
    unfolding ids_fit_def using in0 by force
  then show ?thesis using BuildFor_run by blast
qed

lemma FindFuzzyMatches_overflow:
  assumes "2 ^ 31 \<le> k" and "k < 2 ^ 63"
  shows "FindFuzzyMatches (replicate k w) T w = None"
  using BuildFor_overflow[OF assms] by (simp add: FindFuzzyMatches_def Let_def)

lemma matcher_reachable_ok: "matcher_reachable P w m \<Longrightarrow> \<exists>t. matcher_ok P w t m"
proof (induction rule: matcher_reachable.induct)
  case (built m)
  then show ?case using BuildFor_run[of P w] by (cases "ids_fit P w []") auto
next
  case (scanned m c m' u')
  then obtain t where "matcher_ok P w t m" by blast
  then show ?case
    using Scan_run[of P w t m c "\<lambda>u. u" "()"] scanned.hyps(2)
    by (cases "ids_fit P w (t @ [c])") auto
next
  case (reset m m')
  then obtain t where t: "matcher_ok P w t m" by blast
  then obtain h where h: "aho_corasick_automaton m = Some h" "automaton_reachable (BuildFor_builder P w) h"
    unfolding matcher_ok_def by blast
  have "pattern_length m = length P" "number_of_words m = length (fragments P w)"
    using t unfolding matcher_ok_def by auto
  then show ?case
    using Reset_run[OF h, of ] reset.hyps(2) by (cases "ids_fit P w []") auto
qed

lemma matcher_reachable_built: "matcher_reachable P w m \<Longrightarrow> \<exists>m0. BuildFor P w = Some m0"
  by (induction rule: matcher_reachable.induct) auto

text \<open>\<open>Reset\<close> of a matcher that can be reached from \<open>BuildFor\<close> returns, as it did inside
  \<open>BuildFor\<close>, and any scan after it computes what a scan by the new matcher computes.\<close>

lemma Reset_fresh:
  assumes "matcher_reachable P w m"
  shows "\<exists>m1 m0. Reset m = Some m1 \<and> BuildFor P w = Some m0 \<and>
           matcher_ok P w [] m1 \<and> matcher_ok P w [] m0"
proof -
  obtain t where t: "matcher_ok P w t m" using matcher_reachable_ok[OF assms] by blast
  obtain m0 where m0: "BuildFor P w = Some m0" using matcher_reachable_built[OF assms] by blast
  then have fit: "ids_fit P w []" using BuildFor_run[of P w] by (cases "ids_fit P w []") auto
  then have ok0: "matcher_ok P w [] m0" using BuildFor_run[of P w] m0 by auto
  obtain h where h: "aho_corasick_automaton m = Some h" "automaton_reachable (BuildFor_builder P w) h"
    using t unfolding matcher_ok_def by blast
  have "pattern_length m = length P" "number_of_words m = length (fragments P w)"
    using t unfolding matcher_ok_def by auto
  then obtain m1 where "Reset m = Some m1" "matcher_ok P w [] m1"
    using Reset_run[OF h] fit by blast
  then show ?thesis using m0 ok0 by blast
qed

lemma automaton_transition_ok:
  assumes ok: "automaton_ok F h"
  shows "p \<in> trie_nodes (map fst F) \<Longrightarrow>
         automaton_transition h p [] c = Some (longest_suffix_in (trie_nodes (map fst F)) (p @ [c]))"
proof (induction "length p" arbitrary: p rule: less_induct)
  case less
  let ?T = "trie_nodes (map fst F)"
  have hk: "heap_ok ?T F ?T ?T h" using ok by (simp add: automaton_ok_def)
  obtain n where n: "h p = Some n" "node_ok ?T F ?T ?T p n" using heap_ok_inD[OF hk less.prems] by blast
  have mo: "map_of (trie_transitions n) c = (if p @ [c] \<in> ?T then Some (p @ [c]) else None)"
    using n(2) by (simp add: node_ok_def node_shape_def)
  show ?case
  proof (cases "p @ [c] \<in> ?T")
    case True
    then show ?thesis using n(1) mo by (subst automaton_transition.simps) (simp add: lsuf_id)
  next
    case False
    note notin = this
    show ?thesis
    proof (cases "p = []")
      case True
      then show ?thesis using n(1) mo notin by (subst automaton_transition.simps) simp
    next
      case False
      let ?l = "longest_suffix_in ?T (tl p)"
      have sl: "suffix_link n = Some ?l" using n(2) less.prems by (simp add: node_ok_def)
      have len: "length ?l < length p" by (rule lsuf_tl_length[OF False])
      have lT: "?l \<in> ?T" by (rule lsuf_in[OF trie_nodes_Nil_in])
      have IH: "automaton_transition h ?l [] c = Some (longest_suffix_in ?T (?l @ [c]))"
        by (rule less.hyps[OF len lT])
      have "longest_suffix_in ?T (?l @ [c]) = longest_suffix_in ?T (p @ [c])"
        using lsuf_step[of ?T p c, OF trie_nodes_prefix_closed] notin False by simp
      then show ?thesis using n(1) mo notin False sl IH
        by (subst automaton_transition.simps) simp
    qed
  qed
qed

lemma automaton_ok_cache_pure:
  assumes ok: "automaton_ok F h"
  shows "cache_pure h"
  unfolding cache_pure_def
proof (intro allI impI)
  fix p n c v
  assume a: "h p = Some n \<and> automaton_transitions_cache n c = Some v"
  let ?T = "trie_nodes (map fst F)"
  have hk: "heap_ok ?T F ?T ?T h" using ok by (simp add: automaton_ok_def)
  have pT: "p \<in> ?T" and nk: "node_ok ?T F ?T ?T p n" using heap_ok_SomeD[OF hk, of p n] a by auto
  have "v = Some (longest_suffix_in ?T (p @ [c]))" using nk a unfolding node_ok_def by blast
  then show "v \<noteq> None \<and> automaton_transition h p root_addr c = v"
    using automaton_transition_ok[OF ok pT, of c] by (simp add: root_addr_def)
qed

lemma cache_ext_same_structure:
  assumes "cache_ext T h h'"
  shows "same_structure h h'"
proof -
  have 1: "\<And>p. (h p = None) = (h' p = None)"
  proof -
    fix p show "(h p = None) = (h' p = None)"
      using assms unfolding cache_ext_def by (cases "h p") fastforce+
  qed
  have 2: "\<And>p n n'. h p = Some n \<Longrightarrow> h' p = Some n' \<Longrightarrow>
             trie_transitions n' = trie_transitions n \<and>
             terminated_string_ids n' = terminated_string_ids n \<and>
             suffix_link n' = suffix_link n \<and> terminal_link n' = terminal_link n"
  proof -
    fix p n n' assume a: "h p = Some n" "h' p = Some n'"
    then obtain k where "h' p = Some k" "trie_transitions k = trie_transitions n"
      "terminated_string_ids k = terminated_string_ids n" "suffix_link k = suffix_link n"
      "terminal_link k = terminal_link n"
      using assms unfolding cache_ext_def by blast
    then show "trie_transitions n' = trie_transitions n \<and>
             terminated_string_ids n' = terminated_string_ids n \<and>
             suffix_link n' = suffix_link n \<and> terminal_link n' = terminal_link n"
      using a by simp
  qed
  show ?thesis unfolding same_structure_def using 1 2 by blast
qed

lemma same_structure_trans:
  assumes "same_structure a b" "same_structure b c"
  shows "same_structure a c"
proof -
  have 0: "\<And>p. (a p = None) = (c p = None)" using assms unfolding same_structure_def by blast
  have 3: "\<And>p n n'. a p = Some n \<Longrightarrow> c p = Some n' \<Longrightarrow>
             trie_transitions n' = trie_transitions n \<and>
             terminated_string_ids n' = terminated_string_ids n \<and>
             suffix_link n' = suffix_link n \<and> terminal_link n' = terminal_link n"
  proof -
    fix p n n' assume x: "a p = Some n" "c p = Some n'"
    then have "b p \<noteq> None" using assms(1) unfolding same_structure_def by (metis option.distinct(1))
    then obtain k where k: "b p = Some k" by blast
    have 1: "trie_transitions k = trie_transitions n \<and>
             terminated_string_ids k = terminated_string_ids n \<and>
             suffix_link k = suffix_link n \<and> terminal_link k = terminal_link n"
      using assms(1) x k unfolding same_structure_def by blast
    have 2: "trie_transitions n' = trie_transitions k \<and>
             terminated_string_ids n' = terminated_string_ids k \<and>
             suffix_link n' = suffix_link k \<and> terminal_link n' = terminal_link k"
      using assms(2) x k unfolding same_structure_def by blast
    show "trie_transitions n' = trie_transitions n \<and>
             terminated_string_ids n' = terminated_string_ids n \<and>
             suffix_link n' = suffix_link n \<and> terminal_link n' = terminal_link n"
      using 1 2 by simp
  qed
  show ?thesis unfolding same_structure_def using 0 3 by blast
qed

lemma same_structure_refl: "same_structure h h"
  by (auto simp: same_structure_def)

lemma automaton_reachable_structure:
  "automaton_reachable b h \<Longrightarrow> \<exists>h0. Build b = Some h0 \<and> same_structure h0 h"
proof (induction rule: automaton_reachable.induct)
  case (built h)
  then show ?case using same_structure_refl by blast
next
  case (transition h node c h' r)
  then obtain h0 where h0: "Build b = Some h0" "same_structure h0 h" by blast
  have "automaton_ok (zip (words_b b) (ids_b b)) h" by (rule automaton_reachable_ok[OF transition.hyps(1)])
  then have "cache_ext (trie_nodes (map fst (zip (words_b b) (ids_b b)))) h h'"
    using automaton_ok_transition[OF _ transition.hyps(2)] by blast
  then have "same_structure h h'" by (rule cache_ext_same_structure)
  then show ?case using h0 same_structure_trans by blast
qed

section \<open>The matcher's results\<close>

lemma fragments_in_pattern:
  assumes "fi \<in> set (fragments P w)"
  shows "suffix (fst fi) (take (snd fi) P)"
proof -
  have "list_all2 (\<lambda>p t. p = w \<or> p = t) P P" by (simp add: list_all2_same)
  then have "\<forall>fi \<in> set (frags_from w P 0 []). suffix (fst fi) (take (snd fi) P)"
    using frags_from_match[of "[]" 0 P P w] by simp
  then show ?thesis using assms by (simp add: fragments_eq)
qed

text \<open>
  Claim C6. \<open>BuildFor\<close> hands the builder the fragments of the pattern in order, and the
  identifier of fragment \<open>k\<close> is the sum of the lengths of the fragments \<open>0..k\<close> plus
  \<open>k\<close>, one for each separator passed: the number of pattern characters consumed
  through that fragment. The fragment is the part of the pattern that ends there: counting
  from one, the identifier is the offset of the fragment's last character.
\<close>

theorem BuildFor_fragment_ids:
  assumes "k < length (Split pattern (\<lambda>x. x = wildcard))"
  shows "words_b (BuildFor_builder pattern wildcard) = Split pattern (\<lambda>x. x = wildcard) \<and>
         ids_b (BuildFor_builder pattern wildcard) ! k =
           sum_list (map length (take (Suc k) (Split pattern (\<lambda>x. x = wildcard)))) + k \<and>
         ids_b (BuildFor_builder pattern wildcard) ! k \<le> length pattern \<and>
         suffix (Split pattern (\<lambda>x. x = wildcard) ! k)
           (take (ids_b (BuildFor_builder pattern wildcard) ! k) pattern)"
proof -
  let ?b = "BuildFor_builder pattern wildcard"
  let ?ws = "Split pattern (\<lambda>x. x = wildcard)"
  have w: "words_b ?b = ?ws"
    by (simp add: BuildFor_builder_def BuildFor_loop_words AutomatonBuilder_new_def)
  have i: "ids_b ?b ! k = sum_list (map length (take (Suc k) ?ws)) + k"
    using assms
    by (simp add: BuildFor_builder_def BuildFor_loop_ids AutomatonBuilder_new_def del: upt_Suc)
  have len: "length (ids_b ?b) = length ?ws" using BuildFor_builder_lengths[of pattern wildcard] w by simp
  have "(?ws ! k, ids_b ?b ! k) \<in> set (fragments pattern wildcard)"
    unfolding fragments_def w using assms len by (simp add: in_set_zip) blast
  then have "ids_b ?b ! k \<le> length pattern \<and> suffix (?ws ! k) (take (ids_b ?b ! k) pattern)"
    using fragments_ids_le[of "(?ws ! k, ids_b ?b ! k)" pattern wildcard]
      fragments_in_pattern[of "(?ws ! k, ids_b ?b ! k)" pattern wildcard] by simp
  then show ?thesis using w i by simp
qed

theorem BuildFor_fragment_ids_witness:
  "(1::nat) < length (Split ''ab?cd'' (\<lambda>x. x = CHR ''?'')) \<and>
   words_b (BuildFor_builder ''ab?cd'' CHR ''?'') = [''ab'', ''cd''] \<and>
   ids_b (BuildFor_builder ''ab?cd'' CHR ''?'') ! 1 = 5 \<and>
   suffix ''cd'' (take 5 ''ab?cd'')"
proof -
  have s: "Split ''ab?cd'' (\<lambda>x. x = CHR ''?'') = [''ab'', ''cd'']"
    by (simp add: Split_def)
  have h: "(1::nat) < length (Split ''ab?cd'' (\<lambda>x. x = CHR ''?''))"
    by (simp add: s)
  note t = BuildFor_fragment_ids[OF h]
  have a: "words_b (BuildFor_builder ''ab?cd'' CHR ''?'') = [''ab'', ''cd'']"
    using t by (simp add: s)
  have b: "ids_b (BuildFor_builder ''ab?cd'' CHR ''?'') ! 1 = 5"
    using t by (simp add: s)
  have "suffix ([''ab'', ''cd''] ! 1) (take 5 ''ab?cd'')"
    using t unfolding b s by blast
  then have c: "suffix ''cd'' (take 5 ''ab?cd'')" by simp
  show ?thesis using h a b c by blast
qed

text \<open>
  Claim C1 fails at the empty pattern, which contains no wildcard: it occurs in the text
  \<open>a\<close> at position 0, and in the empty text at position 0, but \<open>FindFuzzyMatches\<close>
  returns the list \<open>[1]\<close> for the first and the empty list for the second, since a match
  is only reported while a character is scanned, as \<open>i + 1 - pattern_length\<close>.
\<close>

theorem FindFuzzyMatches_empty_pattern_counterexample:
  "CHR ''?'' \<notin> set [] \<and> occurs_at [] ''a'' 0 \<and> FindFuzzyMatches [] ''a'' CHR ''?'' = Some [1] \<and>
   occurs_at [] [] 0 \<and> FindFuzzyMatches [] [] CHR ''?'' = Some []"
  by (simp add: FindFuzzyMatches_empty occurs_at_def)

text \<open>
  Claim C1, amended. For every non-empty pattern of fewer than \<open>2 ^ 31\<close> characters without
  a wildcard character and every text, \<open>FindFuzzyMatches\<close> returns the ascending list,
  without repetition, of exactly the positions at which the pattern occurs in the text as
  a substring; overlapping occurrences are all there. (The identifier of the fragment of a
  longer pattern does not pass through the \<open>int\<close> of \<open>GenerateMatches\<close> unchanged; nothing
  is stated for such patterns.)
\<close>

theorem FindFuzzyMatches_exact_substring:
  assumes "P \<noteq> []" and "wildcard \<notin> set P" and "length P < 2 ^ 31"
  shows "\<exists>r. FindFuzzyMatches P T wildcard = Some r \<and> sorted r \<and> distinct r \<and>
             set r = {s. occurs_at P T s} \<and>
             set r = {s. \<exists>u v. T = u @ P @ v \<and> length u = s}"
proof -
  let ?r = "filter (occurs_at P T) [0..<length T + 1 - length P]"
  have "FindFuzzyMatches P T wildcard = Some ?r" by (rule FindFuzzyMatches_literal[OF assms])
  moreover have "sorted ?r" by (rule sorted_wrt_filter) simp
  moreover have "distinct ?r" by simp
  moreover have s: "set ?r = {s. occurs_at P T s}" by (auto simp: occurs_at_def)
  moreover have "set ?r = {s. \<exists>u v. T = u @ P @ v \<and> length u = s}"
    unfolding s using occurs_at_iff[of P T] by blast
  ultimately show ?thesis by blast
qed

theorem FindFuzzyMatches_exact_substring_witness:
  "''aa'' \<noteq> [] \<and> CHR ''?'' \<notin> set ''aa'' \<and> length ''aa'' < (2::nat) ^ 31 \<and>
   (\<exists>r. FindFuzzyMatches ''aa'' ''aaa'' CHR ''?'' = Some r \<and> sorted r \<and> distinct r \<and>
        set r = {s. occurs_at ''aa'' ''aaa'' s} \<and>
        set r = {s. \<exists>u v. ''aaa'' = u @ ''aa'' @ v \<and> length u = s}) \<and>
   occurs_at ''aa'' ''aaa'' 0 \<and> occurs_at ''aa'' ''aaa'' 1"
  using FindFuzzyMatches_exact_substring[of "''aa''" "CHR ''?''" "''aaa''"]
  by (simp add: occurs_at_def)

text \<open>
  Claim C2. Whenever \<open>on_match\<close> fires while the character at index \<open>i\<close> of the text
  is scanned, \<open>i + 1\<close> is at least the pattern length: the subtraction
  \<open>i + 1 - pattern_length\<close> does not wrap around, and the list that \<open>FindFuzzyMatches\<close>
  returns holds these differences. This holds of every run of the matcher that stays
  defined, for every pattern that a \<open>std::string\<close> can hold (its length is a \<open>size_t\<close> below
  \<open>2 ^ 63\<close>): an identifier that changes on its way through the \<open>int\<close> of \<open>GenerateMatches\<close>
  either leaves the counter window, or is counted later than it should be, never earlier.
  For a pattern of fewer than \<open>2 ^ 31\<close> characters every run is defined.
\<close>

theorem on_match_not_early:
  assumes "length P < 2 ^ 63"
  shows "(\<forall>fired. match_firings P T wildcard = Some fired \<longrightarrow>
            (\<forall>i \<in> set fired. i < length T \<and> length P \<le> i + 1 \<and>
                size_t_sub (i + 1) (length P) = i + 1 - length P) \<and>
            FindFuzzyMatches P T wildcard = Some (map (\<lambda>i. i + 1 - length P) fired)) \<and>
         (length P < 2 ^ 31 \<longrightarrow> (\<exists>fired. match_firings P T wildcard = Some fired))"
proof -
  have "(\<forall>i \<in> set fired. i < length T \<and> length P \<le> i + 1 \<and>
                size_t_sub (i + 1) (length P) = i + 1 - length P) \<and>
        FindFuzzyMatches P T wildcard = Some (map (\<lambda>i. i + 1 - length P) fired)"
    if f: "match_firings P T wildcard = Some fired" for fired
  proof -
    have fired: "fired = filter (\<lambda>i. fires_after P wildcard (take (Suc i) T)) [0..<length T]"
      by (rule match_firings_Some[OF f])
    have late: "i < length T \<and> length P \<le> i + 1" if "i \<in> set fired" for i
    proof -
      have i: "i < length T" and "fires_after P wildcard (take (Suc i) T)"
        using that unfolding fired by auto
      then have "length P \<le> length (take (Suc i) T)" using fires_after_late[OF assms] by blast
      then show ?thesis using i by simp
    qed
    then have sub: "\<forall>i \<in> set fired. i < length T \<and> length P \<le> i + 1 \<and>
                size_t_sub (i + 1) (length P) = i + 1 - length P"
      by (simp add: size_t_sub_def)
    have "map (\<lambda>i. size_t_sub (i + 1) (length P)) fired = map (\<lambda>i. i + 1 - length P) fired"
      using sub by (intro map_cong) auto
    then have "FindFuzzyMatches P T wildcard = Some (map (\<lambda>i. i + 1 - length P) fired)"
      using f by (simp add: FindFuzzyMatches_firings)
    then show ?thesis using sub by blast
  qed
  moreover have "\<exists>fired. match_firings P T wildcard = Some fired" if "length P < 2 ^ 31"
    using match_firings_general[OF that] by blast
  ultimately show ?thesis by blast
qed

theorem on_match_not_early_witness:
  "length ''b'' < (2::nat) ^ 63 \<and> length ''b'' < (2::nat) ^ 31 \<and>
   match_firings ''b'' ''ab'' CHR ''?'' = Some [1] \<and> 1 \<in> set [1::nat] \<and>
   (1::nat) < length ''ab'' \<and> length ''b'' \<le> (1::nat) + 1 \<and>
   size_t_sub (1 + 1) (length ''b'') = 1 + 1 - length ''b'' \<and>
   FindFuzzyMatches ''b'' ''ab'' CHR ''?'' = Some (map (\<lambda>i. i + 1 - length ''b'') [1])"
proof -
  have L: "length ''b'' < (2::nat) ^ 63" and L1: "length ''b'' < (2::nat) ^ 31" by simp_all
  have f: "match_firings ''b'' ''ab'' CHR ''?'' = Some [1]"
    unfolding match_firings_general[OF L1]
    by (simp add: match_ends_at_def matches_at_def upt_conv_Cons del: upt_Suc)
  have "(\<forall>i \<in> set [1::nat]. i < length ''ab'' \<and> length ''b'' \<le> i + 1 \<and>
            size_t_sub (i + 1) (length ''b'') = i + 1 - length ''b'') \<and>
        FindFuzzyMatches ''b'' ''ab'' CHR ''?'' = Some (map (\<lambda>i. i + 1 - length ''b'') [1])"
    using on_match_not_early[OF L, of "''ab''" "CHR ''?''"] f by blast
  then show ?thesis using L L1 f by simp
qed

text \<open>
  Claim C3 fails for the empty pattern: on the text \<open>ab\<close> the returned list is
  \<open>[1, 2]\<close>, and position 0 is not in it.
\<close>

theorem FindFuzzyMatches_degenerate_counterexample:
  "FindFuzzyMatches [] ''ab'' CHR ''?'' = Some [1, 2] \<and> (0::nat) \<notin> set [1, 2]"
  by (simp add: FindFuzzyMatches_empty upt_conv_Cons del: upt_Suc)

text \<open>
  Claim C3, amended. A pattern without a constraining fragment and of fewer than \<open>2 ^ 31\<close>
  characters is matched without error. For a pattern of \<open>k \<ge> 1\<close> wildcards and a text of
  length \<open>n\<close> the returned list is \<open>0, ..., n - k\<close>, every position at which the pattern
  fits (empty when \<open>n < k\<close>). For the empty pattern the returned list is \<open>1, ..., n\<close>: one
  position for each scanned character, the position after it. (Nothing is stated for
  \<open>2 ^ 31\<close> wildcards and more, whose identifiers do not fit the \<open>int\<close> of
  \<open>GenerateMatches\<close>.)
\<close>

theorem FindFuzzyMatches_degenerate:
  assumes "set P \<subseteq> {wildcard}" and "length P < 2 ^ 31"
  shows "FindFuzzyMatches P T wildcard =
           Some (if P = [] then [1..<length T + 1] else [0..<length T + 1 - length P])"
proof (cases "P = []")
  case True
  then show ?thesis using FindFuzzyMatches_empty[of T wildcard] by simp
next
  case False
  then show ?thesis using FindFuzzyMatches_wildcards[OF False assms] by simp
qed

theorem FindFuzzyMatches_degenerate_witness:
  "set ''??'' \<subseteq> {CHR ''?''} \<and> length ''??'' < (2::nat) ^ 31 \<and>
   FindFuzzyMatches ''??'' ''abc'' CHR ''?'' = Some [0, 1]"
  using FindFuzzyMatches_degenerate[of "''??''" "CHR ''?''" "''abc''"]
  by (simp add: upt_conv_Cons del: upt_Suc)

text \<open>
  Claim C7: for a pattern of \<open>k \<ge> 1\<close> wildcard characters and a text of length
  \<open>n \<ge> k\<close> the returned list is \<open>0, 1, ..., n - k\<close>. The program does not return it
  for \<open>k = 2 ^ 31\<close>. The root of the automaton then holds the identifiers
  \<open>0, ..., 2 ^ 31\<close>; \<open>Reset\<close>, called by \<open>BuildFor\<close>, receives the last of them through the
  \<open>int\<close> of \<open>GenerateMatches\<close> as \<open>2 ^ 64 - 2 ^ 31\<close> and increments the counter at index
  \<open>2 ^ 31 - (2 ^ 64 - 2 ^ 31) = 2 ^ 32\<close> (modulo \<open>2 ^ 64\<close>) of a window of \<open>2 ^ 31 + 1\<close>
  counters: the behaviour is undefined, and no list is returned.
\<close>

theorem FindFuzzyMatches_all_wildcards_overflow:
  "(1::nat) \<le> 2 ^ 31 \<and> (2::nat) ^ 31 \<le> length (replicate (2 ^ 31) CHR ''a'') \<and>
   FindFuzzyMatches (replicate (2 ^ 31) CHR ''?'') (replicate (2 ^ 31) CHR ''a'') CHR ''?'' = None"
proof -
  have a: "(2::nat) ^ 31 \<le> 2 ^ 31" and b: "(2::nat) ^ 31 < 2 ^ 63" by simp_all
  have "FindFuzzyMatches (replicate (2 ^ 31) CHR ''?'') (replicate (2 ^ 31) CHR ''a'') CHR ''?'' = None"
    by (rule FindFuzzyMatches_overflow[OF a b])
  moreover have "(2::nat) ^ 31 \<le> length (replicate (2 ^ 31) CHR ''a'')"
    by (simp only: length_replicate le_refl)
  moreover have "(1::nat) \<le> 2 ^ 31" by simp
  ultimately show ?thesis by (intro conjI)
qed

text \<open>
  For fewer than \<open>2 ^ 31\<close> wildcards the list is the one of the claim.
\<close>

lemma FindFuzzyMatches_all_wildcards_small:
  assumes "1 \<le> k" and "k < 2 ^ 31" and "k \<le> length T"
  shows "FindFuzzyMatches (replicate k wildcard) T wildcard = Some [0..<length T - k + 1]"
proof -
  have "replicate k wildcard \<noteq> []" using assms(1) by auto
  moreover have "set (replicate k wildcard) \<subseteq> {wildcard}" by auto
  moreover have "length (replicate k wildcard) < 2 ^ 31" using assms(2) by simp
  moreover have "length T + 1 - k = length T - k + 1" using assms(3) by simp
  ultimately show ?thesis
    using FindFuzzyMatches_wildcards[of "replicate k wildcard" wildcard T] by simp
qed

lemma FindFuzzyMatches_all_wildcards_small_example:
  "(1::nat) \<le> 2 \<and> (2::nat) < 2 ^ 31 \<and> 2 \<le> length ''xyz'' \<and>
   FindFuzzyMatches (replicate 2 CHR ''?'') ''xyz'' CHR ''?'' = Some [0, 1]"
proof -
  have a: "(1::nat) \<le> 2" and b: "(2::nat) < 2 ^ 31" and c: "2 \<le> length ''xyz''" by simp_all
  show ?thesis
    using FindFuzzyMatches_all_wildcards_small[OF a b c, of "CHR ''?''"]
    by (simp add: upt_conv_Cons del: upt_Suc)
qed

text \<open>
  Claim C8. For a matcher that was built for a pattern and has since scanned any
  characters and been reset any number of times, \<open>Reset\<close> followed by a scan of a text
  runs the callback at the same text indices, in the same order, as a scan of that text by
  a matcher freshly built for the pattern: for every callback and start value the two
  scans have the same outcome, the same result or both none (which can only happen when
  an identifier of \<open>2 ^ 31\<close> or more is delivered; for a pattern of fewer than \<open>2 ^ 31\<close>
  characters both return).
\<close>

theorem Reset_like_fresh:
  assumes "matcher_reachable pattern wildcard m"
  shows "\<exists>m1 m0. Reset m = Some m1 \<and> BuildFor pattern wildcard = Some m0 \<and>
           map_option snd (scan_text on_match_at m1 0 text acc) =
             map_option snd (scan_text on_match_at m0 0 text acc) \<and>
           (length pattern < 2 ^ 31 \<longrightarrow>
              (\<exists>r. map_option snd (scan_text on_match_at m0 0 text acc) = Some r))"
proof -
  obtain m1 m0 where m: "Reset m = Some m1" "BuildFor pattern wildcard = Some m0"
      "matcher_ok pattern wildcard [] m1" "matcher_ok pattern wildcard [] m0"
    using Reset_fresh[OF assms] by blast
  have 1: "map_option snd (scan_text on_match_at m1 0 text acc) =
        run_text pattern wildcard on_match_at [] text acc"
    using scan_text_run[OF m(3), of on_match_at "text" acc] by simp
  have 0: "map_option snd (scan_text on_match_at m0 0 text acc) =
        run_text pattern wildcard on_match_at [] text acc"
    using scan_text_run[OF m(4), of on_match_at "text" acc] by simp
  have "\<exists>r. map_option snd (scan_text on_match_at m0 0 text acc) = Some r"
    if "length pattern < 2 ^ 31"
    unfolding 0 using run_text_small[OF that, of wildcard on_match_at "[]" "text" acc] by simp
  then show ?thesis using m(1,2) 0 1 by auto
qed

theorem Reset_like_fresh_witness:
  "\<exists>m0 ma m. BuildFor ''a?a'' CHR ''?'' = Some m0 \<and>
     Scan m0 CHR ''a'' (\<lambda>u. u) () = Some (ma, ()) \<and> Scan ma CHR ''b'' (\<lambda>u. u) () = Some (m, ()) \<and>
     matcher_reachable ''a?a'' CHR ''?'' m \<and> length ''a?a'' < (2::nat) ^ 31 \<and>
     (\<exists>m1. Reset m = Some m1 \<and>
        map_option snd (scan_text (\<lambda>i fired. fired @ [i]) m1 0 ''aaa'' []) = Some [2] \<and>
        map_option snd (scan_text (\<lambda>i fired. fired @ [i]) m0 0 ''aaa'' []) = Some [2])"
proof -
  have L: "length ''a?a'' < (2::nat) ^ 31" by simp
  obtain m0 where m0: "BuildFor ''a?a'' CHR ''?'' = Some m0" "matcher_ok ''a?a'' CHR ''?'' [] m0"
    using BuildFor_ok[OF L] by blast
  obtain ma where sa: "Scan m0 CHR ''a'' (\<lambda>u. u) () = Some (ma, ())"
      and oka: "matcher_ok ''a?a'' CHR ''?'' ([] @ ''a'') ma"
    using Scan_ok[OF L m0(2), of "CHR ''a''" "\<lambda>u. u" "()"] by auto
  obtain m where sb: "Scan ma CHR ''b'' (\<lambda>u. u) () = Some (m, ())"
    using Scan_ok[OF L oka, of "CHR ''b''" "\<lambda>u. u" "()"] by auto
  have r: "matcher_reachable ''a?a'' CHR ''?'' m"
    by (rule matcher_reachable.scanned[OF
          matcher_reachable.scanned[OF matcher_reachable.built[OF m0(1)] sa] sb])
  have "\<exists>m'. scan_text (\<lambda>i fired. fired @ [i]) m0 (length ([]::string)) ''aaa'' [] =
      Some (m', foldl (\<lambda>a i. if match_ends_at ''a?a'' CHR ''?'' ([] @ ''aaa'') (Suc i) then a @ [i] else a) []
                  [length ([]::string)..<length ([]::string) + length ''aaa''])"
    by (rule scan_text_ok[OF L m0(2)])
  then have f: "map_option snd (scan_text (\<lambda>i fired. fired @ [i]) m0 0 ''aaa'' []) = Some [2]"
    by (auto simp: match_ends_at_def matches_at_def upt_conv_Cons simp del: upt_Suc)
  obtain m1 m0' where t: "Reset m = Some m1" "BuildFor ''a?a'' CHR ''?'' = Some m0'"
      "map_option snd (scan_text (\<lambda>i fired. fired @ [i]) m1 0 ''aaa'' []) =
       map_option snd (scan_text (\<lambda>i fired. fired @ [i]) m0' 0 ''aaa'' [])"
    using Reset_like_fresh[OF r, of "\<lambda>i fired. fired @ [i]" "''aaa''" "[]"] by blast
  have "m0' = m0" using t(2) m0(1) by simp
  then show ?thesis using m0(1) sa sb r L t(1,3) f by auto
qed

text \<open>
  Claim C9. In every matcher that can be reached from \<open>BuildFor\<close> by \<open>Scan\<close> and \<open>Reset\<close>,
  the automaton has the nodes that \<open>Build\<close> returned, with the same trie children,
  identifiers, suffix links and terminal links: the transition caches alone differ. Every
  cache entry is the value of the transition function computed without the cache, and a
  further \<open>Next\<close> from any node keeps all of this. (\<open>GenerateMatches\<close> and \<open>Reset\<close> only
  read the automaton.)
\<close>

theorem automaton_immutable:
  assumes "matcher_reachable pattern wildcard m"
  shows "\<exists>h0 h. Build (BuildFor_builder pattern wildcard) = Some h0 \<and>
           aho_corasick_automaton m = Some h \<and> same_structure h0 h \<and> cache_pure h \<and>
           (\<forall>node c h' ref'.
               Next \<lparr>node_ref = Some node, root_ref = Some root_addr\<rparr> c h = Some (h', ref') \<longrightarrow>
               same_structure h0 h' \<and> cache_pure h')"
proof -
  let ?b = "BuildFor_builder pattern wildcard"
  let ?F = "zip (words_b ?b) (ids_b ?b)"
  obtain t where t: "matcher_ok pattern wildcard t m" using matcher_reachable_ok[OF assms] by blast
  then obtain h where h: "aho_corasick_automaton m = Some h" "automaton_reachable ?b h"
    unfolding matcher_ok_def by blast
  obtain h0 where h0: "Build ?b = Some h0" "same_structure h0 h"
    using automaton_reachable_structure[OF h(2)] by blast
  have cp: "cache_pure h" by (rule automaton_ok_cache_pure[OF automaton_reachable_ok[OF h(2)]])
  have "same_structure h0 h' \<and> cache_pure h'"
    if nx: "Next \<lparr>node_ref = Some node, root_ref = Some root_addr\<rparr> c h = Some (h', ref')"
    for node c h' ref'
  proof -
    obtain r where "GetAutomatonTransition h (Some node) (Some root_addr) c = Some (h', r)"
      using nx by (auto simp: Next_def split: Option.bind_splits)
    then have r': "automaton_reachable ?b h'" by (rule automaton_reachable.transition[OF h(2)])
    have "same_structure h0 h'" using automaton_reachable_structure[OF r'] h0(1) by auto
    moreover have "cache_pure h'" by (rule automaton_ok_cache_pure[OF automaton_reachable_ok[OF r']])
    ultimately show ?thesis by blast
  qed
  then show ?thesis using h(1) h0 cp by blast
qed

theorem automaton_immutable_witness:
  "\<exists>m h0 h h' ref'. matcher_reachable ''a?a'' CHR ''?'' m \<and>
     Build (BuildFor_builder ''a?a'' CHR ''?'') = Some h0 \<and>
     aho_corasick_automaton m = Some h \<and> same_structure h0 h \<and> cache_pure h \<and>
     Next \<lparr>node_ref = Some root_addr, root_ref = Some root_addr\<rparr> CHR ''a'' h = Some (h', ref') \<and>
     same_structure h0 h' \<and> cache_pure h'"
proof -
  have "length ''a?a'' < (2::nat) ^ 31" by simp
  then obtain m where "BuildFor ''a?a'' CHR ''?'' = Some m" using BuildFor_ok by blast
  then have r: "matcher_reachable ''a?a'' CHR ''?'' m" by (rule matcher_reachable.built)
  obtain h0 h where hh: "Build (BuildFor_builder ''a?a'' CHR ''?'') = Some h0"
      "aho_corasick_automaton m = Some h" "same_structure h0 h" "cache_pure h"
      "\<forall>node c h' ref'.
          Next \<lparr>node_ref = Some node, root_ref = Some root_addr\<rparr> c h = Some (h', ref') \<longrightarrow>
          same_structure h0 h' \<and> cache_pure h'"
    using automaton_immutable[OF r] by blast
  obtain t where "matcher_ok ''a?a'' CHR ''?'' t m" using matcher_reachable_ok[OF r] by blast
  then have ar: "automaton_reachable (BuildFor_builder ''a?a'' CHR ''?'') h"
    using hh(2) unfolding matcher_ok_def by auto
  let ?F = "zip (words_b (BuildFor_builder ''a?a'' CHR ''?'')) (ids_b (BuildFor_builder ''a?a'' CHR ''?''))"
  have ok: "automaton_ok ?F h" by (rule automaton_reachable_ok[OF ar])
  then have "heap_ok (trie_nodes (map fst ?F)) ?F (trie_nodes (map fst ?F)) (trie_nodes (map fst ?F)) h"
    by (simp add: automaton_ok_def)
  then obtain n where n: "h [] = Some n" using heap_ok_inD[OF _ trie_nodes_Nil_in] by blast
  then obtain h' l where "GetAutomatonTransition h (Some []) (Some root_addr) CHR ''a'' = Some (h', Some l)"
    using automaton_ok_total[OF ok n, of "CHR ''a''"] by blast
  then have "Next \<lparr>node_ref = Some root_addr, root_ref = Some root_addr\<rparr> CHR ''a'' h =
        Some (h', \<lparr>node_ref = Some l, root_ref = Some root_addr\<rparr>)"
    by (simp add: Next_def root_addr_def)
  then show ?thesis using r hh by blast
qed

end
